theory Spec2Isabelle
  imports Complex_Main "HOL-Library.Product_Lexorder"
begin

section \<open>Data model of the endlessh exporter\<close>

text \<open>
  The exporter keeps its state in module-level dictionaries. A Python \<^verbatim>\<open>dict\<close> keeps
  its keys in insertion order, and the deduplication of the Hall of Fame and the rendering
  iterate in that order, so a dictionary is an association list with one entry per key:
  \<^verbatim>\<open>d[k] = v\<close> replaces the value of an existing key where it stands and appends a new
  key at the end.
\<close>

fun dict_set :: "('k \<times> 'v) list \<Rightarrow> 'k \<Rightarrow> 'v \<Rightarrow> ('k \<times> 'v) list" where
  "dict_set [] k v = [(k, v)]"
| "dict_set ((k', v') # kvs) k v =
     (if k' = k then (k, v) # kvs else (k', v') # dict_set kvs k v)"

text \<open>\<^verbatim>\<open>dict(items)\<close> and a dict comprehension: the items are stored one after the other.\<close>

definition dict_of_items :: "('k \<times> 'v) list \<Rightarrow> ('k \<times> 'v) list" where
  "dict_of_items kvs = fold (\<lambda>(k, v) d. dict_set d k v) kvs []"

text \<open>
  A connection is the dictionary built at lines 185-195 of the source, with its fixed keys.
  The status is one of the two literals \<^verbatim>\<open>'trapped'\<close> and \<^verbatim>\<open>'released'\<close>. Time stamps
  (\<^verbatim>\<open>datetime\<close>) are seconds on the UTC time line and durations (\<^verbatim>\<open>float\<close>) are seconds;
  both are real numbers here: the code only compares, subtracts and averages them.
\<close>

datatype status = Trapped | Released

record conn =
  ip :: string
  port :: string
  fd :: string
  country :: string
  city :: string
  country_code :: string
  started :: real
  duration :: real
  status :: status

text \<open>The value cached per address in \<^verbatim>\<open>ip_locations\<close>.\<close>

record geo =
  geo_country :: string
  geo_country_code :: string
  geo_city :: string
  lat :: real
  lon :: real

text \<open>
  The answer of the geolocation service to one request: the \<^verbatim>\<open>try\<close> block of
  \<^verbatim>\<open>get_geoip_data\<close> either raises (network error, timeout, a body that is not JSON)
  or decodes a JSON object, whose fields may be missing.
\<close>

record api_data =
  api_status :: "string option"
  api_country :: "string option"
  api_countryCode :: "string option"
  api_city :: "string option"
  api_lat :: "real option"
  api_lon :: "real option"

datatype api_result = ApiRaises | ApiData api_data

text \<open>
  The service is outside the program: it is a function of the number of requests made so
  far and of the address asked for, so that it may answer the same address differently
  from one request to the next.
\<close>

type_synonym geo_service = "nat \<Rightarrow> string \<Rightarrow> api_result"

text \<open>
  A log line is given by what the three regular-expression searches of
  \<^verbatim>\<open>parse_endlessh_logs\<close> find in it (\<^verbatim>\<open>re.search\<close> is library code): the groups of
  \<^verbatim>\<open>accept_pattern\<close>, the groups of \<^verbatim>\<open>close_pattern\<close> with group 4 read by
  \<^verbatim>\<open>float\<close>, and group 1 of \<^verbatim>\<open>timestamp_pattern\<close> together with the time
  \<^verbatim>\<open>strptime\<close> reads from it. Each search may fail, and one line may match several
  patterns. A line on which \<^verbatim>\<open>float\<close> or \<^verbatim>\<open>strptime\<close> raises (a duration such as
  \<^verbatim>\<open>1.2.3\<close>, a month 13) ends the pass with an uncaught \<^verbatim>\<open>ValueError\<close>; such lines
  have no value of this type, and endlessh does not write them.
\<close>

record accept_match =
  a_ip :: string
  a_port :: string
  a_fd :: string
  a_n :: nat

record close_match =
  c_ip :: string
  c_port :: string
  c_fd :: string
  c_time :: real

record ts_match =
  ts_text :: string
  ts_time :: real

record log_line =
  accept_m :: "accept_match option"
  close_m :: "close_match option"
  ts_m :: "ts_match option"

text \<open>What \<^verbatim>\<open>print\<close> writes, and what the Hall of Fame file holds.\<close>

datatype message = Loaded nat | ErrorLoading | NoExisting | ErrorSaving

datatype file_state = NoFile | Unreadable | Stored "(string \<times> conn) list"

text \<open>
  The module-level variables, followed by the three things the program acts on outside
  itself: the requests sent to the geolocation service, the console and the file.
\<close>

record engine =
  individual_connections :: "(string \<times> conn) list"
  hall_of_fame :: "(string \<times> conn) list"
  ip_locations :: "string \<rightharpoonup> geo"
  total_connections_counter :: nat
  seen_log_entries :: "string set"
  connections_per_ip :: "(string \<times> nat) list"
  max_trap_duration :: real
  avg_trap_duration :: real
  active_connections :: nat
  requests :: "string list"
  console :: "message list"
  hof_file :: file_state

section \<open>Hall of Fame file\<close>

text \<open>
  \<^verbatim>\<open>load_hall_of_fame\<close>: \<^verbatim>\<open>Unreadable\<close> stands for a file on which the \<^verbatim>\<open>try\<close> block
  raises (it cannot be opened, is not JSON, or holds a start time that is not ISO);
  \<^verbatim>\<open>Stored d\<close> for a file that decodes to the dictionary \<^verbatim>\<open>d\<close>.
\<close>

definition load_hall_of_fame :: "engine \<Rightarrow> engine" where
  "load_hall_of_fame st =
     (case hof_file st of
        Stored d \<Rightarrow> st\<lparr>hall_of_fame := d, console := console st @ [Loaded (length d)]\<rparr>
      | Unreadable \<Rightarrow> st\<lparr>hall_of_fame := [], console := console st @ [ErrorLoading]\<rparr>
      | NoFile \<Rightarrow> st\<lparr>hall_of_fame := [], console := console st @ [NoExisting]\<rparr>)"

text \<open>
  \<^verbatim>\<open>save_hall_of_fame\<close>: the whole body is one \<^verbatim>\<open>try\<close> block. Either it runs through
  and the file holds the entries, or some step raises (\<^verbatim>\<open>makedirs\<close>, \<^verbatim>\<open>open\<close>,
  \<^verbatim>\<open>json.dump\<close>), the handler prints, and the file is left in some state \<^verbatim>\<open>f\<close>.
\<close>

datatype save_outcome = SaveOk | SaveRaises file_state

definition save_hall_of_fame :: "save_outcome \<Rightarrow> engine \<Rightarrow> engine" where
  "save_hall_of_fame out st =
     (case out of
        SaveOk \<Rightarrow> st\<lparr>hof_file := Stored (hall_of_fame st)\<rparr>
      | SaveRaises f \<Rightarrow> st\<lparr>console := console st @ [ErrorSaving], hof_file := f\<rparr>)"

section \<open>Geolocation cache\<close>

definition fallback_geo :: geo where
  "fallback_geo = \<lparr>geo_country = ''Unknown'', geo_country_code = ''XX'',
     geo_city = ''Unknown'', lat = 0, lon = 0\<rparr>"

definition get_default :: "'a option \<Rightarrow> 'a \<Rightarrow> 'a" where
  "get_default x d = (case x of None \<Rightarrow> d | Some v \<Rightarrow> v)"

definition geo_of_data :: "api_data \<Rightarrow> geo" where
  "geo_of_data d = \<lparr>geo_country = get_default (api_country d) ''Unknown'',
     geo_country_code = get_default (api_countryCode d) ''XX'',
     geo_city = get_default (api_city d) ''Unknown'',
     lat = get_default (api_lat d) 0, lon = get_default (api_lon d) 0\<rparr>"

text \<open>
  \<^verbatim>\<open>get_geoip_data\<close> returns the location and acts on the cache and on the list of
  requests sent.
\<close>

definition get_geoip_data ::
  "geo_service \<Rightarrow> string \<Rightarrow> (string \<rightharpoonup> geo) \<times> string list
     \<Rightarrow> geo \<times> (string \<rightharpoonup> geo) \<times> string list" where
  "get_geoip_data api a s =
     (case s of (locs, reqs) \<Rightarrow>
        (case locs a of
           Some g \<Rightarrow> (g, locs, reqs)
         | None \<Rightarrow>
             (case api (length reqs) a of
                ApiData d \<Rightarrow>
                  (if api_status d = Some ''success''
                   then (geo_of_data d, locs(a \<mapsto> geo_of_data d), reqs @ [a])
                   else (fallback_geo, locs, reqs @ [a]))
              | ApiRaises \<Rightarrow> (fallback_geo, locs, reqs @ [a]))))"

section \<open>Reconciliation\<close>

text \<open>The connection id \<^verbatim>\<open>f"{ip}:{port}"\<close>.\<close>

definition conn_id_of :: "string \<Rightarrow> string \<Rightarrow> string" where
  "conn_id_of a p = a @ '':'' @ p"

text \<open>\<^verbatim>\<open>s.replace('"', '')\<close>.\<close>

definition strip_quotes :: "string \<Rightarrow> string" where
  "strip_quotes s = filter (\<lambda>c. c \<noteq> CHR 0x22) s"

text \<open>Lines 143-148: the ports of the CLOSE lines.\<close>

definition closed_ports_of :: "log_line list \<Rightarrow> string set" where
  "closed_ports_of ls = set (map c_port (List.map_filter close_m ls))"

text \<open>
  Lines 152-197, the body of the loop over the ACCEPT lines. It acts on
  \<^verbatim>\<open>individual_connections\<close>, \<^verbatim>\<open>connections_per_ip\<close>, the cache and the requests.
  (\<^verbatim>\<open>current_active\<close> is assigned from group 4 and never read.)
\<close>

record pass1 =
  p_conns :: "(string \<times> conn) list"
  p_per_ip :: "(string \<times> nat) list"
  p_locs :: "string \<rightharpoonup> geo"
  p_reqs :: "string list"

text \<open>Lines 173-174: the service is asked when the address is not in the cache.\<close>

definition lookup_if_missing ::
  "geo_service \<Rightarrow> string \<Rightarrow> (string \<rightharpoonup> geo) \<times> string list
     \<Rightarrow> (string \<rightharpoonup> geo) \<times> string list" where
  "lookup_if_missing api a s =
     (if a \<notin> dom (fst s) then snd (get_geoip_data api a s) else s)"

text \<open>
  Lines 164-170 and 176-195: the record stored for an ACCEPT line, from its groups, its
  time stamp (the clock when the line has none), the cache entry \<^verbatim>\<open>g\<close> of its address
  (\<^verbatim>\<open>ip_locations.get(ip, {})\<close>) and the ports of the CLOSE lines.
\<close>

definition new_conn ::
  "real \<Rightarrow> string set \<Rightarrow> log_line \<Rightarrow> accept_match \<Rightarrow> geo option \<Rightarrow> conn" where
  "new_conn now closed_ports l m g =
     \<lparr>ip = a_ip m, port = a_port m, fd = a_fd m,
      country = strip_quotes (get_default (map_option geo_country g) ''Unknown''),
      city = strip_quotes (get_default (map_option geo_city g) ''Unknown''),
      country_code = get_default (map_option geo_country_code g) ''XX'',
      started = (case ts_m l of Some t \<Rightarrow> ts_time t | None \<Rightarrow> now),
      duration = 0,
      status = (if a_port m \<in> closed_ports then Released else Trapped)\<rparr>"

definition accept_step ::
  "geo_service \<Rightarrow> real \<Rightarrow> string set \<Rightarrow> log_line \<Rightarrow> pass1 \<Rightarrow> pass1" where
  "accept_step api now closed_ports l s =
     (case accept_m l of
        None \<Rightarrow> s
      | Some m \<Rightarrow>
          (let conn_id = conn_id_of (a_ip m) (a_port m);
               g = lookup_if_missing api (a_ip m) (p_locs s, p_reqs s)
           in \<lparr>p_conns = dict_set (p_conns s) conn_id
                         (new_conn now closed_ports l m (fst g (a_ip m))),
               p_per_ip = dict_set (p_per_ip s) (a_ip m)
                            (get_default (map_of (p_per_ip s) (a_ip m)) 0 + 1),
               p_locs = fst g, p_reqs = snd g\<rparr>))"

definition accept_pass ::
  "geo_service \<Rightarrow> real \<Rightarrow> log_line list \<Rightarrow> (string \<rightharpoonup> geo) \<Rightarrow> string list \<Rightarrow> pass1" where
  "accept_pass api now ls locs reqs =
     fold (accept_step api now (closed_ports_of ls)) ls
       \<lparr>p_conns = [], p_per_ip = [], p_locs = locs, p_reqs = reqs\<rparr>"

text \<open>
  Lines 200-216, the body of the loop over the CLOSE lines, on
  \<^verbatim>\<open>individual_connections\<close> and \<^verbatim>\<open>hall_of_fame\<close>. (The list \<^verbatim>\<open>all_durations\<close> it
  appends to is overwritten at line 251 before it is read.)
\<close>

definition close_step ::
  "log_line \<Rightarrow> (string \<times> conn) list \<times> (string \<times> conn) list
     \<Rightarrow> (string \<times> conn) list \<times> (string \<times> conn) list" where
  "close_step l s =
     (case s of (conns, hof) \<Rightarrow>
        (case close_m l of
           None \<Rightarrow> (conns, hof)
         | Some m \<Rightarrow>
             (let conn_id = conn_id_of (c_ip m) (c_port m)
              in (case map_of conns conn_id of
                    None \<Rightarrow> (conns, hof)
                  | Some c \<Rightarrow>
                      (dict_set conns conn_id (c\<lparr>duration := c_time m\<rparr>),
                       dict_set hof conn_id (c\<lparr>duration := c_time m\<rparr>))))))"

definition close_pass ::
  "log_line list \<Rightarrow> (string \<times> conn) list \<Rightarrow> (string \<times> conn) list
     \<Rightarrow> (string \<times> conn) list \<times> (string \<times> conn) list" where
  "close_pass ls conns hof = fold close_step ls (conns, hof)"

text \<open>
  Lines 219-223. The comprehension shares the connection objects with
  \<^verbatim>\<open>individual_connections\<close>, so the assignment of the live duration is seen through both
  dictionaries: \<^verbatim>\<open>recompute_trapped\<close> is \<^verbatim>\<open>individual_connections\<close> after the loop,
  \<^verbatim>\<open>trapped_connections\<close> the filtered dictionary. All readings of the clock during one
  pass are one value \<^verbatim>\<open>now\<close>.
\<close>

definition live :: "real \<Rightarrow> conn \<Rightarrow> conn" where
  "live now c = (if status c = Trapped then c\<lparr>duration := now - started c\<rparr> else c)"

definition recompute_trapped :: "real \<Rightarrow> (string \<times> conn) list \<Rightarrow> (string \<times> conn) list" where
  "recompute_trapped now conns = map (\<lambda>(k, c). (k, live now c)) conns"

definition trapped_connections :: "real \<Rightarrow> (string \<times> conn) list \<Rightarrow> (string \<times> conn) list" where
  "trapped_connections now conns =
     filter (\<lambda>(k, c). status c = Trapped) (recompute_trapped now conns)"

text \<open>
  The working set of one pass: \<^verbatim>\<open>individual_connections\<close> as it stands after line 223,
  built from the long window alone.
\<close>

definition working_set ::
  "geo_service \<Rightarrow> real \<Rightarrow> log_line list \<Rightarrow> (string \<rightharpoonup> geo) \<Rightarrow> string list
     \<Rightarrow> (string \<times> conn) list" where
  "working_set api now ls locs reqs =
     recompute_trapped now
       (fst (close_pass ls (p_conns (accept_pass api now ls locs reqs)) []))"

section \<open>Hall of Fame\<close>

text \<open>Lines 227-234: one entry per address, the first of those with the longest duration.\<close>

definition best_step ::
  "string \<times> conn \<Rightarrow> (string \<times> (string \<times> conn)) list \<Rightarrow> (string \<times> (string \<times> conn)) list" where
  "best_step e best =
     (case map_of best (ip (snd e)) of
        None \<Rightarrow> dict_set best (ip (snd e)) e
      | Some b \<Rightarrow>
          (if duration (snd e) > duration (snd b) then dict_set best (ip (snd e)) e
           else best))"

definition ip_to_best_conn :: "(string \<times> conn) list \<Rightarrow> (string \<times> (string \<times> conn)) list" where
  "ip_to_best_conn hof = fold best_step hof []"

definition dedup_hall :: "(string \<times> conn) list \<Rightarrow> (string \<times> conn) list" where
  "dedup_hall hof = dict_of_items (map snd (ip_to_best_conn hof))"

text \<open>
  Lines 238-241. \<^verbatim>\<open>sorted(..., reverse=True)\<close> is stable: entries of equal duration keep
  their order, as the stable \<^const>\<open>sort_key\<close> does on the negated duration.
\<close>

definition trim_hall :: "(string \<times> conn) list \<Rightarrow> (string \<times> conn) list" where
  "trim_hall hof =
     (if length hof > 100
      then dict_of_items (take 100 (sort_key (\<lambda>(k, c). - duration c) hof))
      else hof)"

text \<open>The merge of one pass: lines 200-241 on the Hall of Fame.\<close>

definition merge_hall ::
  "log_line list \<Rightarrow> (string \<times> conn) list \<Rightarrow> (string \<times> conn) list \<Rightarrow> (string \<times> conn) list" where
  "merge_hall ls conns hof = trim_hall (dedup_hall (snd (close_pass ls conns hof)))"

section \<open>Counter\<close>

text \<open>
  Lines 272-284. The variable \<^verbatim>\<open>fd\<close> of the source is \<^verbatim>\<open>match.group(2)\<close>, which is the
  port group of \<^verbatim>\<open>accept_pattern\<close>.
\<close>

definition log_id_of :: "string \<Rightarrow> string \<Rightarrow> string" where
  "log_id_of t f = t @ ''_'' @ f"

definition count_step :: "log_line \<Rightarrow> string set \<times> nat \<Rightarrow> string set \<times> nat" where
  "count_step l s =
     (case s of (seen, n) \<Rightarrow>
        (case accept_m l of
           None \<Rightarrow> (seen, n)
         | Some m \<Rightarrow>
             (case ts_m l of
                None \<Rightarrow> (seen, n)
              | Some t \<Rightarrow>
                  (let log_id = log_id_of (ts_text t) (a_port m)
                   in if log_id \<notin> seen then (insert log_id seen, n + 1) else (seen, n)))))"

definition count_pass :: "log_line list \<Rightarrow> string set \<times> nat \<Rightarrow> string set \<times> nat" where
  "count_pass ls s = fold count_step ls s"

text \<open>Lines 288-290.\<close>

definition cleanup_seen :: "string set \<Rightarrow> string set" where
  "cleanup_seen seen = (if card seen > 1000 then {} else seen)"

section \<open>One pass\<close>

text \<open>
  What one call of \<^verbatim>\<open>parse_endlessh_logs\<close> meets outside the program: the text of the
  two \<^verbatim>\<open>journalctl\<close> calls (\<^verbatim>\<open>None\<close> when the call raises \<^verbatim>\<open>CalledProcessError\<close>),
  the clock, the geolocation service and the fate of the write.
\<close>

record scrape =
  output_6h :: "log_line list option"
  output_5min :: "log_line list option"
  clock :: real
  geo_api :: geo_service
  save_result :: save_outcome

text \<open>\<^verbatim>\<open>dict.update\<close>: the entries of the second dictionary are stored into the first.\<close>

definition dict_update :: "('k \<times> 'v) list \<Rightarrow> ('k \<times> 'v) list \<Rightarrow> ('k \<times> 'v) list" where
  "dict_update d e = fold (\<lambda>(k, v) d. dict_set d k v) e d"

definition display_connections ::
  "real \<Rightarrow> (string \<times> conn) list \<Rightarrow> (string \<times> conn) list \<Rightarrow> (string \<times> conn) list" where
  "display_connections now conns hof = dict_update (trapped_connections now conns) hof"

definition parse_endlessh_logs :: "scrape \<Rightarrow> engine \<Rightarrow> engine" where
  "parse_endlessh_logs inp st =
     (case output_6h inp of
        None \<Rightarrow> st
      | Some ls \<Rightarrow>
          (let ls5 = (case output_5min inp of None \<Rightarrow> [] | Some x \<Rightarrow> x);
               now = clock inp;
               p = accept_pass (geo_api inp) now ls (ip_locations st) (requests st);
               conns = fst (close_pass ls (p_conns p) (hall_of_fame st));
               hof = merge_hall ls (p_conns p) (hall_of_fame st);
               st1 = save_hall_of_fame (save_result inp) (st\<lparr>hall_of_fame := hof\<rparr>);
               display = display_connections now conns hof;
               all_durations = map (\<lambda>(k, c). duration c) display;
               (seen, n) = count_pass ls5 (seen_log_entries st, total_connections_counter st)
           in st1\<lparr>individual_connections := display,
                  connections_per_ip := p_per_ip p,
                  ip_locations := p_locs p,
                  requests := p_reqs p,
                  max_trap_duration :=
                    (if all_durations \<noteq> [] then Max (set all_durations) else 0),
                  avg_trap_duration :=
                    (if all_durations \<noteq> [] then sum_list all_durations / real (length all_durations)
                     else 0),
                  active_connections := length (filter (\<lambda>(k, c). status c = Trapped) display),
                  total_connections_counter := n,
                  seen_log_entries := cleanup_seen seen\<rparr>))"

text \<open>The module-level initial values (lines 22-30), with no file and nothing printed.\<close>

definition initial_engine :: engine where
  "initial_engine = \<lparr>individual_connections = [], hall_of_fame = [], ip_locations = Map.empty,
     total_connections_counter = 0, seen_log_entries = {}, connections_per_ip = [],
     max_trap_duration = 0, avg_trap_duration = 0, active_connections = 0,
     requests = [], console = [], hof_file = NoFile\<rparr>"

section \<open>Metrics\<close>

text \<open>
  \<^verbatim>\<open>generate_metrics\<close> returns text. A sample line is kept as its metric name, its
  labels and its value; the constant \<^verbatim>\<open># HELP\<close> and \<^verbatim>\<open># TYPE\<close> lines are left out,
  and numbers stay numbers (the source prints them with two decimals, and the start time
  as local time).
\<close>

record connection_info =
  ci_fd :: string
  ci_ip :: string
  ci_port :: string
  ci_country :: string
  ci_city :: string
  ci_status :: status
  ci_started :: real
  ci_sort_order :: nat
  ci_ip_group :: nat
  ci_value :: real

record per_ip =
  pi_ip :: string
  pi_country :: string
  pi_country_code :: string
  pi_city :: string
  pi_latitude :: real
  pi_longitude :: real
  pi_max_trap_duration :: real
  pi_avg_trap_duration :: real
  pi_count :: nat

datatype sample =
    Total_connections_total nat
  | Total_connections nat
  | Active_connections nat
  | Max_trap_duration_seconds real
  | Avg_trap_duration_seconds real
  | Connection_info connection_info
  | Connections_per_ip per_ip
  | Unique_ips nat
  | Connections_per_country string nat

text \<open>Lines 325-330, the inner function \<^verbatim>\<open>sort_key\<close>: trapped first, then longest first.\<close>

definition sort_key_conn :: "string \<times> conn \<Rightarrow> int \<times> real" where
  "sort_key_conn item =
     (- (if status (snd item) = Trapped then 1 else 0), - duration (snd item))"

text \<open>
  Lines 339-364, the loop over the sorted connections with its three variables. The
  lookup \<^verbatim>\<open>ip_group_map[current_ip]\<close> finds the address, which was stored when it was
  first met.
\<close>

record group_state =
  ip_group_map :: "(string \<times> nat) list"
  current_group :: nat
  last_ip :: "string option"

definition group_step :: "string \<Rightarrow> group_state \<Rightarrow> group_state" where
  "group_step current_ip g =
     (if Some current_ip \<noteq> last_ip g
      then (if current_ip \<notin> fst ` set (ip_group_map g)
            then \<lparr>ip_group_map = dict_set (ip_group_map g) current_ip (current_group g),
                  current_group = current_group g + 1, last_ip = Some current_ip\<rparr>
            else g\<lparr>last_ip := Some current_ip\<rparr>)
      else g)"

fun connection_infos :: "nat \<Rightarrow> group_state \<Rightarrow> (string \<times> conn) list \<Rightarrow> sample list" where
  "connection_infos idx g [] = []"
| "connection_infos idx g (item # rest) =
     (let c = snd item; g' = group_step (ip c) g
      in Connection_info
           \<lparr>ci_fd = fd c, ci_ip = ip c, ci_port = port c, ci_country = country c,
            ci_city = city c, ci_status = status c, ci_started = started c,
            ci_sort_order = idx,
            ci_ip_group = get_default (map_of (ip_group_map g') (ip c)) 0,
            ci_value = duration c\<rparr>
         # connection_infos (idx + 1) g' rest)"

text \<open>Lines 367-369: the durations of the displayed connections, per address.\<close>

definition ip_durations_of :: "(string \<times> conn) list \<Rightarrow> (string \<times> real list) list" where
  "ip_durations_of conns =
     fold (\<lambda>item d. dict_set d (ip (snd item))
                      (get_default (map_of d (ip (snd item))) [] @ [duration (snd item)]))
       conns []"

text \<open>Lines 372-390, the body of the loop over \<^verbatim>\<open>connections_per_ip\<close>.\<close>

definition per_ip_sample ::
  "(string \<rightharpoonup> geo) \<Rightarrow> (string \<times> real list) list \<Rightarrow> string \<times> nat \<Rightarrow> sample" where
  "per_ip_sample locs ip_durations e =
     (let a = fst e; g = locs a;
          durations = get_default (map_of ip_durations a) [0];
          max_duration = (if durations \<noteq> [] then Max (set durations) else 0);
          avg_duration = (if durations \<noteq> [] then sum_list durations / real (length durations)
                          else 0)
      in Connections_per_ip
           \<lparr>pi_ip = a,
            pi_country = strip_quotes (get_default (map_option geo_country g) ''Unknown''),
            pi_country_code = get_default (map_option geo_country_code g) ''XX'',
            pi_city = strip_quotes (get_default (map_option geo_city g) ''Unknown''),
            pi_latitude = get_default (map_option lat g) 0,
            pi_longitude = get_default (map_option lon g) 0,
            pi_max_trap_duration = max_duration, pi_avg_trap_duration = avg_duration,
            pi_count = snd e\<rparr>)"

text \<open>Lines 396-400: the connections per country, summed over \<^verbatim>\<open>connections_per_ip\<close>.\<close>

definition country_of :: "(string \<rightharpoonup> geo) \<Rightarrow> string \<Rightarrow> string" where
  "country_of locs a = get_default (map_option geo_country (locs a)) ''Unknown''"

definition countries_of :: "(string \<rightharpoonup> geo) \<Rightarrow> (string \<times> nat) list \<Rightarrow> (string \<times> nat) list" where
  "countries_of locs per_ip =
     fold (\<lambda>e d. dict_set d (country_of locs (fst e))
                   (get_default (map_of d (country_of locs (fst e))) 0 + snd e))
       per_ip []"

text \<open>Lines 297-406 after the call of \<^verbatim>\<open>parse_endlessh_logs\<close>.\<close>

definition render :: "engine \<Rightarrow> sample list" where
  "render st =
     [Total_connections_total (total_connections_counter st),
      Total_connections (length (individual_connections st)),
      Active_connections (active_connections st),
      Max_trap_duration_seconds (max_trap_duration st),
      Avg_trap_duration_seconds (avg_trap_duration st)]
     @ connection_infos 0 \<lparr>ip_group_map = [], current_group = 0, last_ip = None\<rparr>
         (sort_key sort_key_conn (individual_connections st))
     @ map (per_ip_sample (ip_locations st) (ip_durations_of (individual_connections st)))
         (connections_per_ip st)
     @ [Unique_ips (length (connections_per_ip st))]
     @ map (\<lambda>e. Connections_per_country (strip_quotes (fst e)) (snd e))
         (countries_of (ip_locations st) (connections_per_ip st))"

definition generate_metrics :: "scrape \<Rightarrow> engine \<Rightarrow> sample list \<times> engine" where
  "generate_metrics inp st = (let st' = parse_endlessh_logs inp st in (render st', st'))"

section \<open>Invariants and example data\<close>

text \<open>Invariant of the loop that builds ip_to_best_conn.\<close>

definition best_inv :: "(string \<times> conn) list \<Rightarrow> (string \<times> (string \<times> conn)) list \<Rightarrow> bool" where
  "best_inv seen best \<longleftrightarrow>
     distinct (map fst best) \<and>
     (\<forall>(a, e) \<in> set best. e \<in> set seen \<and> ip (snd e) = a) \<and>
     (\<forall>e \<in> set seen. \<exists>b. (ip (snd e), b) \<in> set best \<and> duration (snd e) \<le> duration (snd b))"

text \<open>A connection record with the given address, port, duration and status.\<close>

definition example_conn :: "string \<Rightarrow> string \<Rightarrow> real \<Rightarrow> status \<Rightarrow> conn" where
  "example_conn a p d s = \<lparr>ip = a, port = p, fd = ''4'', country = ''Unknown'',
     city = ''Unknown'', country_code = ''XX'', started = 0, duration = d, status = s\<rparr>"

definition example_hall :: "(string \<times> conn) list" where
  "example_hall =
     [(''1.1.1.1:10'', example_conn ''1.1.1.1'' ''10'' 5 Released),
      (''1.1.1.1:11'', example_conn ''1.1.1.1'' ''11'' 9 Released),
      (''2.2.2.2:10'', example_conn ''2.2.2.2'' ''10'' 3 Released)]"

text \<open>One hundred and fifty entries of distinct addresses, the n-th of duration n.\<close>

definition example_ip :: "nat \<Rightarrow> string" where
  "example_ip n = ''10.0.0.'' @ replicate (Suc n) CHR ''1''"

definition example_big_hall :: "(string \<times> conn) list" where
  "example_big_hall =
     map (\<lambda>n. (conn_id_of (example_ip n) ''22'', example_conn (example_ip n) ''22'' (real n) Released))
       [0..<150]"


text \<open>
  The index of terminated connections in the words of the specification: the pairs of
  address and port of the CLOSE lines.
\<close>

definition spec_terminated_index :: "log_line list \<Rightarrow> (string \<times> string) set" where
  "spec_terminated_index ls = set (map (\<lambda>m. (c_ip m, c_port m)) (List.map_filter close_m ls))"

text \<open>Log lines as endlessh writes them: an ACCEPT line, a CLOSE line, a time stamp.\<close>

definition stamp :: "string \<Rightarrow> real \<Rightarrow> ts_match option" where
  "stamp s t = Some \<lparr>ts_text = s, ts_time = t\<rparr>"

definition accept_line :: "string \<Rightarrow> string \<Rightarrow> string \<Rightarrow> nat \<Rightarrow> ts_match option \<Rightarrow> log_line" where
  "accept_line a p f n t =
     \<lparr>accept_m = Some \<lparr>a_ip = a, a_port = p, a_fd = f, a_n = n\<rparr>, close_m = None, ts_m = t\<rparr>"

definition close_line :: "string \<Rightarrow> string \<Rightarrow> string \<Rightarrow> real \<Rightarrow> ts_match option \<Rightarrow> log_line" where
  "close_line a p f d t =
     \<lparr>accept_m = None, close_m = Some \<lparr>c_ip = a, c_port = p, c_fd = f, c_time = d\<rparr>, ts_m = t\<rparr>"

definition no_geo_service :: geo_service where
  "no_geo_service n a = ApiRaises"

text \<open>One address opens port 40001, another address closes its own port 40001.\<close>

definition example_port_clash :: "log_line list" where
  "example_port_clash =
     [accept_line ''203.0.113.5'' ''40001'' ''4'' 1 (stamp ''2025-10-14T16:17:13'' 1000),
      close_line ''198.51.100.7'' ''40001'' ''5'' 12.5 (stamp ''2025-10-14T16:20:00'' 1167)]"

text \<open>
  The entry \<^verbatim>\<open>e\<close> is the one the ACCEPT line \<^verbatim>\<open>l\<close> stores, up to its duration, which
  the later loops assign.
\<close>

definition built_from :: "real \<Rightarrow> string set \<Rightarrow> log_line \<Rightarrow> string \<times> conn \<Rightarrow> bool" where
  "built_from now cp l e \<longleftrightarrow>
     (case accept_m l of
        None \<Rightarrow> False
      | Some m \<Rightarrow>
          fst e = conn_id_of (a_ip m) (a_port m) \<and> ip (snd e) = a_ip m
          \<and> port (snd e) = a_port m \<and> fd (snd e) = a_fd m
          \<and> status (snd e) = (if a_port m \<in> cp then Released else Trapped)
          \<and> started (snd e) = (case ts_m l of Some t \<Rightarrow> ts_time t | None \<Rightarrow> now))"

text \<open>The identifier under which a line of the short window is counted, if it is counted.\<close>

definition line_id :: "log_line \<Rightarrow> string option" where
  "line_id l =
     (case accept_m l of
        None \<Rightarrow> None
      | Some m \<Rightarrow> (case ts_m l of None \<Rightarrow> None | Some t \<Rightarrow> Some (log_id_of (ts_text t) (a_port m))))"

definition log_ids :: "log_line list \<Rightarrow> string set" where
  "log_ids ls = set (List.map_filter line_id ls)"

text \<open>
  Two ACCEPT lines of the same second on the same descriptor 4, from two ports; and two
  of the same second from the same port number of two addresses, on descriptors 4 and 5.
\<close>

definition example_same_fd :: "log_line list" where
  "example_same_fd =
     [accept_line ''203.0.113.5'' ''40001'' ''4'' 1 (stamp ''2025-10-14T16:17:13'' 1000),
      accept_line ''203.0.113.5'' ''40002'' ''4'' 1 (stamp ''2025-10-14T16:17:13'' 1000)]"

definition example_same_port :: "log_line list" where
  "example_same_port =
     [accept_line ''203.0.113.5'' ''40001'' ''4'' 1 (stamp ''2025-10-14T16:17:13'' 1000),
      accept_line ''198.51.100.7'' ''40001'' ''5'' 2 (stamp ''2025-10-14T16:17:13'' 1000)]"

text \<open>
  A short window of 1001 ACCEPT lines of one second from 1001 ports, and a pass that
  reads it; then a pass that reads the first of these lines alone.
\<close>

definition flood_line :: "nat \<Rightarrow> log_line" where
  "flood_line n =
     accept_line ''203.0.113.5'' (replicate (Suc n) CHR ''1'') ''4'' 1
       (stamp ''2025-10-14T16:17:13'' 1000)"

definition flood_lines :: "log_line list" where
  "flood_lines = map flood_line [0..<1001]"

definition flood_scrape :: scrape where
  "flood_scrape = \<lparr>output_6h = Some flood_lines, output_5min = Some flood_lines, clock = 1060,
     geo_api = no_geo_service, save_result = SaveOk\<rparr>"

definition flood_again :: scrape where
  "flood_again = \<lparr>output_6h = Some flood_lines, output_5min = Some [flood_line 0], clock = 1120,
     geo_api = no_geo_service, save_result = SaveOk\<rparr>"

text \<open>Two passes one minute apart whose windows hold the same two ACCEPT lines.\<close>

definition example_first_scrape :: scrape where
  "example_first_scrape = \<lparr>output_6h = Some example_same_fd, output_5min = Some example_same_fd,
     clock = 1060, geo_api = no_geo_service, save_result = SaveOk\<rparr>"

definition example_second_scrape :: scrape where
  "example_second_scrape = \<lparr>output_6h = Some example_same_fd, output_5min = Some example_same_fd,
     clock = 1120, geo_api = no_geo_service, save_result = SaveOk\<rparr>"

text \<open>
  The address groups of both patterns are \<^verbatim>\<open>\d+\.\d+\.\d+\.\d+\<close>: digits and dots.
\<close>

definition digits_and_dots :: "string \<Rightarrow> bool" where
  "digits_and_dots s \<longleftrightarrow> set s \<subseteq> set ''0123456789.''"

definition line_ok :: "log_line \<Rightarrow> bool" where
  "line_ok l \<longleftrightarrow>
     (case accept_m l of None \<Rightarrow> True | Some m \<Rightarrow> digits_and_dots (a_ip m))
     \<and> (case close_m l of None \<Rightarrow> True | Some m \<Rightarrow> digits_and_dots (c_ip m))"

text \<open>The duration reported by the last CLOSE line of the window with the key \<^verbatim>\<open>k\<close>.\<close>

definition closes :: "string \<Rightarrow> log_line \<Rightarrow> real option" where
  "closes k l =
     (case close_m l of
        None \<Rightarrow> None
      | Some m \<Rightarrow> if conn_id_of (c_ip m) (c_port m) = k then Some (c_time m) else None)"

fun last_close_time :: "string \<Rightarrow> log_line list \<Rightarrow> real option" where
  "last_close_time k [] = None"
| "last_close_time k (l # ls) =
     (case last_close_time k ls of Some d \<Rightarrow> Some d | None \<Rightarrow> closes k l)"

text \<open>
  A window in which 203.0.113.5 opens port 40001 and stays, and 203.0.113.9 opens port
  40002 and closes it after 734.5 seconds.
\<close>

definition example_window :: "log_line list" where
  "example_window =
     [accept_line ''203.0.113.5'' ''40001'' ''4'' 1 (stamp ''2025-10-14T16:17:13'' 1000),
      accept_line ''203.0.113.9'' ''40002'' ''5'' 2 (stamp ''2025-10-14T16:17:14'' 1001),
      close_line ''203.0.113.9'' ''40002'' ''5'' 734.5 (stamp ''2025-10-14T16:29:28'' 1735)]"

text \<open>An answer of the geolocation service that does not lead to a cache entry.\<close>

definition failing :: "api_result \<Rightarrow> bool" where
  "failing r \<longleftrightarrow> (case r of ApiRaises \<Rightarrow> True | ApiData d \<Rightarrow> api_status d \<noteq> Some ''success'')"

text \<open>The ACCEPT lines of the address \<^verbatim>\<open>a\<close>.\<close>

definition accepts_of :: "string \<Rightarrow> log_line list \<Rightarrow> log_line list" where
  "accepts_of a ls = filter (\<lambda>l. map_option a_ip (accept_m l) = Some a) ls"

text \<open>A pass over the example window in which the write fails and leaves no file.\<close>

definition example_failed_save :: scrape where
  "example_failed_save = \<lparr>output_6h = Some example_window, output_5min = Some example_window,
     clock = 2000, geo_api = no_geo_service, save_result = SaveRaises NoFile\<rparr>"

text \<open>A pass over the example window, all of whose lookups fail.\<close>

definition example_pass :: scrape where
  "example_pass = \<lparr>output_6h = Some example_window, output_5min = Some example_window,
     clock = 2000, geo_api = no_geo_service, save_result = SaveOk\<rparr>"

text \<open>The three series that are rolled up per address and per country.\<close>

fun is_rollup :: "sample \<Rightarrow> bool" where
  "is_rollup (Connections_per_ip p) = True"
| "is_rollup (Unique_ips n) = True"
| "is_rollup (Connections_per_country c n) = True"
| "is_rollup s = False"

text \<open>The addresses of the ACCEPT lines of a window.\<close>

definition open_origins :: "log_line list \<Rightarrow> string set" where
  "open_origins ls = set (map a_ip (List.map_filter accept_m ls))"

text \<open>
  A Hall of Fame loaded from the file, with an address that opens nothing in the example
  window.
\<close>

definition example_old_hall :: "(string \<times> conn) list" where
  "example_old_hall = [(''192.0.2.77:50000'', example_conn ''192.0.2.77'' ''50000'' 5000 Released)]"

definition example_engine :: engine where
  "example_engine = initial_engine\<lparr>hall_of_fame := example_old_hall\<rparr>"

text \<open>
  A geolocation service that answers each address the same way at every request, and what
  the cache then holds for an address once it has been looked up: the entry it had, or
  the successful answer of the service.
\<close>

definition stable :: "geo_service \<Rightarrow> bool" where
  "stable api \<longleftrightarrow> (\<forall>n a. api n a = api 0 a)"

definition resolved :: "geo_service \<Rightarrow> (string \<rightharpoonup> geo) \<Rightarrow> string \<Rightarrow> geo option" where
  "resolved api locs a =
     (case locs a of
        Some g \<Rightarrow> Some g
      | None \<Rightarrow>
          (case api 0 a of
             ApiRaises \<Rightarrow> None
           | ApiData d \<Rightarrow> if api_status d = Some ''success'' then Some (geo_of_data d) else None))"

definition cache_inv :: "geo_service \<Rightarrow> (string \<rightharpoonup> geo) \<Rightarrow> (string \<rightharpoonup> geo) \<Rightarrow> bool" where
  "cache_inv api locs0 locs \<longleftrightarrow>
     (\<forall>a. locs a = resolved api locs0 a \<or> (locs a = None \<and> locs0 a = None))"

text \<open>The ACCEPT loop on the connections alone, with the location of each address given.\<close>

definition store_step ::
  "(string \<Rightarrow> geo option) \<Rightarrow> real \<Rightarrow> string set \<Rightarrow> log_line \<Rightarrow> (string \<times> conn) list
     \<Rightarrow> (string \<times> conn) list" where
  "store_step eff now cp l d =
     (case accept_m l of
        None \<Rightarrow> d
      | Some m \<Rightarrow> dict_set d (conn_id_of (a_ip m) (a_port m)) (new_conn now cp l m (eff (a_ip m))))"

text \<open>An ACCEPT line without a time stamp, read by two passes one minute apart.\<close>

definition example_unstamped :: "log_line list" where
  "example_unstamped = [accept_line ''203.0.113.5'' ''40001'' ''4'' 1 None]"

definition example_pass_again :: scrape where
  "example_pass_again = \<lparr>output_6h = Some example_window, output_5min = Some example_window,
     clock = 2060, geo_api = no_geo_service, save_result = SaveOk\<rparr>"

text \<open>The entries of an address in a Hall of Fame.\<close>

definition entries_of :: "string \<Rightarrow> (string \<times> conn) list \<Rightarrow> (string \<times> conn) list" where
  "entries_of a hof = filter (\<lambda>(k, e). ip e = a) hof"

text \<open>
  A Hall of Fame that holds, with 5000 seconds, the connection id which the example
  window opens and closes again after 734.5 seconds.
\<close>

definition example_stored_same_key :: "(string \<times> conn) list" where
  "example_stored_same_key =
     [(''203.0.113.9:40002'', example_conn ''203.0.113.9'' ''40002'' 5000 Released)]"

text \<open>The ports of the ACCEPT lines of a window.\<close>

definition open_ports :: "log_line list \<Rightarrow> string set" where
  "open_ports ls = set (map a_port (List.map_filter accept_m ls))"

text \<open>
  A geolocation service whose first request fails and whose later requests succeed, and a
  window with one stamped ACCEPT line (the first line of the port clash example).
\<close>

definition flaky_service :: geo_service where
  "flaky_service n a =
     (if n = 0 then ApiRaises
      else ApiData \<lparr>api_status = Some ''success'', api_country = Some ''Germany'',
             api_countryCode = Some ''DE'', api_city = Some ''Berlin'',
             api_lat = Some 52.5, api_lon = Some 13.4\<rparr>)"

definition example_stamped :: "log_line list" where
  "example_stamped =
     [accept_line ''203.0.113.5'' ''40001'' ''4'' 1 (stamp ''2025-10-14T16:17:13'' 1000)]"

section \<open>Facts about dictionaries\<close>

lemma map_of_dict_set: "map_of (dict_set d k v) = (map_of d)(k \<mapsto> v)"
  by (induction d k v rule: dict_set.induct) auto

lemma keys_dict_set:
  "map fst (dict_set d k v) = (if k \<in> fst ` set d then map fst d else map fst d @ [k])"
  by (induction d k v rule: dict_set.induct) auto

lemma distinct_dict_set: "distinct (map fst d) \<Longrightarrow> distinct (map fst (dict_set d k v))"
  by (simp add: keys_dict_set)

lemma dict_set_new: "k \<notin> fst ` set d \<Longrightarrow> dict_set d k v = d @ [(k, v)]"
  by (induction d k v rule: dict_set.induct) auto

lemma set_dict_set:
  "distinct (map fst d) \<Longrightarrow> set (dict_set d k v) = {e \<in> set d. fst e \<noteq> k} \<union> {(k, v)}"
  by (induction d k v rule: dict_set.induct) (auto simp: rev_image_eqI)


lemma fold_dict_set_fresh:
  "distinct (map fst kvs) \<Longrightarrow> fst ` set kvs \<inter> fst ` set acc = {}
     \<Longrightarrow> fold (\<lambda>(k, v) d. dict_set d k v) kvs acc = acc @ kvs"
proof (induction kvs arbitrary: acc)
  case Nil
  then show ?case by simp
next
  case (Cons e kvs)
  obtain k v where e: "e = (k, v)" by (cases e)
  from Cons.prems have fresh: "k \<notin> fst ` set acc" by (auto simp: e)
  have "fold (\<lambda>(k, v) d. dict_set d k v) kvs (acc @ [(k, v)]) = (acc @ [(k, v)]) @ kvs"
    using Cons.prems by (intro Cons.IH) (auto simp: e)
  then show ?case by (simp add: e dict_set_new [OF fresh])
qed

lemma dict_of_items_distinct: "distinct (map fst kvs) \<Longrightarrow> dict_of_items kvs = kvs"
  unfolding dict_of_items_def using fold_dict_set_fresh [of kvs "[]"] by simp

section \<open>Deduplication of the Hall of Fame\<close>

lemma best_inv_step:
  assumes "best_inv seen best"
  shows "best_inv (seen @ [e]) (best_step e best)"
proof (cases "map_of best (ip (snd e))")
  case None
  then have fresh: "ip (snd e) \<notin> fst ` set best"
    by (simp add: map_of_eq_None_iff)
  have eq: "best_step e best = best @ [(ip (snd e), e)]"
    by (simp add: best_step_def None dict_set_new [OF fresh])
  have d: "distinct (map fst (best_step e best))"
    using assms fresh unfolding eq best_inv_def by simp
  have m: "\<forall>(a, x) \<in> set (best_step e best). x \<in> set (seen @ [e]) \<and> ip (snd x) = a"
    using assms unfolding eq best_inv_def by auto
  have "\<exists>b'. (ip (snd x), b') \<in> set (best_step e best) \<and> duration (snd x) \<le> duration (snd b')"
    if "x \<in> set (seen @ [e])" for x
  proof (cases "x = e")
    case True
    have "(ip (snd e), e) \<in> set (best_step e best)" unfolding eq by simp
    then show ?thesis unfolding True by (intro exI [of _ e]) simp
  next
    case False
    with that have "x \<in> set seen" by simp
    with assms obtain b' where "(ip (snd x), b') \<in> set best" "duration (snd x) \<le> duration (snd b')"
      unfolding best_inv_def by blast
    then show ?thesis unfolding eq by (intro exI [of _ b']) simp
  qed
  with d m show ?thesis unfolding best_inv_def by blast
next
  case (Some b)
  then have inb: "(ip (snd e), b) \<in> set best" by (rule map_of_SomeD)
  from assms have dist: "distinct (map fst best)" by (simp add: best_inv_def)
  show ?thesis
  proof (cases "duration (snd e) > duration (snd b)")
    case True
    have eq: "best_step e best = dict_set best (ip (snd e)) e"
      by (simp add: best_step_def Some True)
    have s: "set (best_step e best) = {x \<in> set best. fst x \<noteq> ip (snd e)} \<union> {(ip (snd e), e)}"
      unfolding eq by (rule set_dict_set [OF dist])
    have d: "distinct (map fst (best_step e best))"
      unfolding eq by (rule distinct_dict_set [OF dist])
    have "\<exists>b'. (ip (snd x), b') \<in> set (best_step e best) \<and> duration (snd x) \<le> duration (snd b')"
      if "x \<in> set (seen @ [e])" for x
    proof (cases "ip (snd x) = ip (snd e)")
      case same: True
      have "duration (snd x) \<le> duration (snd e)"
      proof (cases "x = e")
        case True then show ?thesis by simp
      next
        case False
        with that have "x \<in> set seen" by simp
        with assms obtain b' where b': "(ip (snd x), b') \<in> set best" "duration (snd x) \<le> duration (snd b')"
          unfolding best_inv_def by blast
        from b'(1) same inb dist have "b' = b"
          by (metis Some map_of_is_SomeI option.inject)
        with b'(2) True show ?thesis by simp
      qed
      then show ?thesis unfolding s using same by (intro exI [of _ e]) simp
    next
      case diff: False
      with that have "x \<in> set seen" by auto
      with assms obtain b' where b': "(ip (snd x), b') \<in> set best" "duration (snd x) \<le> duration (snd b')"
        unfolding best_inv_def by blast
      then show ?thesis unfolding s using diff by (intro exI [of _ b']) simp
    qed
    moreover have "\<forall>(a, x) \<in> set (best_step e best). x \<in> set (seen @ [e]) \<and> ip (snd x) = a"
      using assms unfolding s best_inv_def by auto
    ultimately show ?thesis using d unfolding best_inv_def by blast
  next
    case False
    have eq: "best_step e best = best"
      by (simp add: best_step_def Some False)
    have "\<exists>b'. (ip (snd x), b') \<in> set best \<and> duration (snd x) \<le> duration (snd b')"
      if "x \<in> set (seen @ [e])" for x
    proof (cases "x = e")
      case True
      then show ?thesis using inb False by (intro exI [of _ b]) simp
    next
      case False
      with that have "x \<in> set seen" by simp
      with assms show ?thesis unfolding best_inv_def by blast
    qed
    then show ?thesis using assms unfolding eq best_inv_def by auto
  qed
qed

lemma best_inv_fold: "best_inv seen best \<Longrightarrow> best_inv (seen @ hof) (fold best_step hof best)"
proof (induction hof arbitrary: seen best)
  case Nil
  then show ?case by simp
next
  case (Cons e hof)
  from Cons.IH [OF best_inv_step [OF Cons.prems, of e]] show ?case by simp
qed

lemma best_inv_final: "best_inv hof (ip_to_best_conn hof)"
  unfolding ip_to_best_conn_def using best_inv_fold [of "[]" "[]" hof]
  by (simp add: best_inv_def)

lemma filter_key_distinct:
  "distinct (map fst xs) \<Longrightarrow> (a, b) \<in> set xs \<Longrightarrow> filter (\<lambda>x. fst x = a) xs = [(a, b)]"
proof (induction xs)
  case Nil
  then show ?case by simp
next
  case (Cons x xs)
  show ?case
  proof (cases "x = (a, b)")
    case True
    from Cons.prems(1) have "a \<notin> fst ` set xs" by (simp add: True)
    then have "filter (\<lambda>x. fst x = a) xs = []"
      by (auto simp: filter_empty_conv)
    then show ?thesis by (simp add: True)
  next
    case False
    with Cons.prems have "(a, b) \<in> set xs" by simp
    with Cons.prems(1) have "fst x \<noteq> a" by (auto simp: rev_image_eqI)
    with Cons \<open>(a, b) \<in> set xs\<close> show ?thesis by simp
  qed
qed

lemma best_conn_ids_distinct:
  assumes "distinct (map fst hof)"
  shows "distinct (map fst (map snd (ip_to_best_conn hof)))"
proof -
  let ?B = "ip_to_best_conn hof"
  have inv: "best_inv hof ?B" by (rule best_inv_final)
  then have dB: "distinct (map fst ?B)" by (simp add: best_inv_def)
  then have "distinct ?B" by (simp add: distinct_map)
  moreover have "inj_on (\<lambda>x. fst (snd x)) (set ?B)"
  proof (rule inj_onI)
    fix x y assume x: "x \<in> set ?B" and y: "y \<in> set ?B" and eq: "fst (snd x) = fst (snd y)"
    from inv x have mx: "snd x \<in> set hof" "ip (snd (snd x)) = fst x"
      unfolding best_inv_def by (cases x, fastforce)+
    from inv y have my: "snd y \<in> set hof" "ip (snd (snd y)) = fst y"
      unfolding best_inv_def by (cases y, fastforce)+
    from assms mx(1) my(1) eq have "snd x = snd y"
      by (metis eq_key_imp_eq_value prod.collapse)
    with mx(2) my(2) have "fst x = fst y" by simp
    with \<open>snd x = snd y\<close> show "x = y" by (simp add: prod_eq_iff)
  qed
  ultimately show ?thesis by (simp add: distinct_map comp_def)
qed

lemma dedup_hall_eq:
  "distinct (map fst hof) \<Longrightarrow> dedup_hall hof = map snd (ip_to_best_conn hof)"
  unfolding dedup_hall_def by (rule dict_of_items_distinct) (rule best_conn_ids_distinct)

text \<open>
  The deduplication step keeps, for each address, one of its entries with the longest
  duration.
\<close>

lemma dedup_hall_longest:
  assumes "distinct (map fst hof)" and "(k, c) \<in> set hof"
  shows "\<exists>k' c'. filter (\<lambda>(k, e). ip e = ip c) (dedup_hall hof) = [(k', c')]
           \<and> (k', c') \<in> set hof
           \<and> duration c' = Max {duration e |k e. (k, e) \<in> set hof \<and> ip e = ip c}"
proof -
  let ?B = "ip_to_best_conn hof"
  let ?M = "{duration e |k e. (k, e) \<in> set hof \<and> ip e = ip c}"
  have inv: "best_inv hof ?B" by (rule best_inv_final)
  then have dB: "distinct (map fst ?B)" by (simp add: best_inv_def)
  from inv assms(2) obtain b where b: "(ip c, b) \<in> set ?B" "duration c \<le> duration (snd b)"
    unfolding best_inv_def by fastforce
  from inv b(1) have bm: "b \<in> set hof" "ip (snd b) = ip c"
    unfolding best_inv_def by fastforce+
  have "filter (\<lambda>(k, e). ip e = ip c) (map snd ?B) = map snd (filter (\<lambda>x. ip (snd (snd x)) = ip c) ?B)"
    by (simp add: filter_map comp_def case_prod_beta)
  also have "filter (\<lambda>x. ip (snd (snd x)) = ip c) ?B = filter (\<lambda>x. fst x = ip c) ?B"
  proof (rule filter_cong [OF refl])
    fix x assume "x \<in> set ?B"
    with inv have "ip (snd (snd x)) = fst x" unfolding best_inv_def by (cases x) fastforce
    then show "(ip (snd (snd x)) = ip c) = (fst x = ip c)" by simp
  qed
  also have "\<dots> = [(ip c, b)]" by (rule filter_key_distinct [OF dB b(1)])
  finally have f: "filter (\<lambda>(k, e). ip e = ip c) (dedup_hall hof) = [b]"
    by (simp add: dedup_hall_eq [OF assms(1)])
  have fin: "finite ?M"
  proof -
    have "?M \<subseteq> (\<lambda>x. duration (snd x)) ` set hof" by force
    then show ?thesis by (rule finite_subset) simp
  qed
  have "duration (snd b) \<in> ?M"
  proof -
    have "(fst b, snd b) \<in> set hof \<and> ip (snd b) = ip c" using bm by simp
    then show ?thesis by blast
  qed
  moreover have "d \<le> duration (snd b)" if "d \<in> ?M" for d
  proof -
    from that obtain k' e where e: "(k', e) \<in> set hof" "ip e = ip c" "d = duration e" by blast
    from inv e(1) obtain b' where b': "(ip e, b') \<in> set ?B" "duration e \<le> duration (snd b')"
      unfolding best_inv_def by fastforce
    from b'(1) b(1) dB e(2) have "b' = b" by (metis eq_key_imp_eq_value)
    with b'(2) e(3) show ?thesis by simp
  qed
  ultimately have "Max ?M = duration (snd b)" using fin by (intro Max_eqI) auto
  with f bm(1) show ?thesis by (cases b) auto
qed

section \<open>The bound of the Hall of Fame\<close>

lemma close_step_distinct:
  "distinct (map fst (fst s)) \<Longrightarrow> distinct (map fst (snd s))
     \<Longrightarrow> distinct (map fst (fst (close_step l s))) \<and> distinct (map fst (snd (close_step l s)))"
  by (cases s) (simp add: close_step_def Let_def distinct_dict_set split: option.splits)

lemma close_pass_distinct:
  "distinct (map fst conns) \<Longrightarrow> distinct (map fst hof)
     \<Longrightarrow> distinct (map fst (fst (close_pass ls conns hof)))
         \<and> distinct (map fst (snd (close_pass ls conns hof)))"
proof -
  have "distinct (map fst (fst s)) \<Longrightarrow> distinct (map fst (snd s))
     \<Longrightarrow> distinct (map fst (fst (fold close_step ls s))) \<and> distinct (map fst (snd (fold close_step ls s)))" for s
  proof (induction ls arbitrary: s)
    case Nil
    then show ?case by simp
  next
    case (Cons l ls)
    from close_step_distinct [OF Cons.prems, of l] Cons.IH [of "close_step l s"]
    show ?case by simp
  qed
  from this [of "(conns, hof)"] show "distinct (map fst conns) \<Longrightarrow> distinct (map fst hof)
     \<Longrightarrow> distinct (map fst (fst (close_pass ls conns hof)))
         \<and> distinct (map fst (snd (close_pass ls conns hof)))"
    by (simp add: close_pass_def)
qed

lemma close_step_hof_distinct:
  "distinct (map fst (snd s)) \<Longrightarrow> distinct (map fst (snd (close_step l s)))"
  by (cases s) (simp add: close_step_def Let_def distinct_dict_set split: option.splits)

lemma close_pass_hof_distinct:
  "distinct (map fst hof) \<Longrightarrow> distinct (map fst (snd (close_pass ls conns hof)))"
proof -
  have "distinct (map fst (snd s)) \<Longrightarrow> distinct (map fst (snd (fold close_step ls s)))" for s
    by (induction ls arbitrary: s) (simp_all add: close_step_hof_distinct)
  from this [of "(conns, hof)"] show "distinct (map fst hof) \<Longrightarrow> ?thesis"
    by (simp add: close_pass_def)
qed




lemma distinct_keys_sort:
  assumes "distinct (map fst xs)"
  shows "distinct (map fst (sort_key f xs))"
proof -
  from assms have "distinct xs" "inj_on fst (set xs)" by (simp_all add: distinct_map)
  then show ?thesis by (simp add: distinct_map)
qed

lemma trim_hall_eq:
  assumes "distinct (map fst hof)" and "length hof > 100"
  shows "trim_hall hof = take 100 (sort_key (\<lambda>(k, c). - duration c) hof)"
proof -
  have "distinct (map fst (take 100 (sort_key (\<lambda>(k, c). - duration c) hof)))"
    unfolding take_map [symmetric] by (rule distinct_take) (rule distinct_keys_sort [OF assms(1)])
  then show ?thesis by (simp add: trim_hall_def assms(2) dict_of_items_distinct)
qed

lemma dedup_hall_distinct:
  "distinct (map fst hof) \<Longrightarrow> distinct (map fst (dedup_hall hof))"
  by (simp only: dedup_hall_eq best_conn_ids_distinct)

lemma best_keys: "fst ` set (ip_to_best_conn hof) = (\<lambda>e. ip (snd e)) ` set hof"
proof -
  have inv: "best_inv hof (ip_to_best_conn hof)" by (rule best_inv_final)
  show ?thesis
  proof (intro equalityI subsetI)
    fix a assume "a \<in> fst ` set (ip_to_best_conn hof)"
    then obtain e where "(a, e) \<in> set (ip_to_best_conn hof)" by auto
    with inv have "e \<in> set hof" "ip (snd e) = a" unfolding best_inv_def by fastforce+
    then show "a \<in> (\<lambda>e. ip (snd e)) ` set hof" by auto
  next
    fix a assume "a \<in> (\<lambda>e. ip (snd e)) ` set hof"
    then obtain e where "e \<in> set hof" "a = ip (snd e)" by auto
    with inv obtain b where "(a, b) \<in> set (ip_to_best_conn hof)" unfolding best_inv_def by fastforce
    then show "a \<in> fst ` set (ip_to_best_conn hof)" by (auto simp: rev_image_eqI)
  qed
qed

lemma length_dedup_hall:
  assumes "distinct (map fst hof)"
  shows "length (dedup_hall hof) = card ((\<lambda>e. ip (snd e)) ` set hof)"
proof -
  have inv: "best_inv hof (ip_to_best_conn hof)" by (rule best_inv_final)
  then have "distinct (map fst (ip_to_best_conn hof))" by (simp add: best_inv_def)
  then have "card (set (map fst (ip_to_best_conn hof))) = length (map fst (ip_to_best_conn hof))"
    by (rule distinct_card)
  then show ?thesis by (simp add: dedup_hall_eq [OF assms] best_keys)
qed

lemma set_dedup_hall: "distinct (map fst hof) \<Longrightarrow> set (dedup_hall hof) \<subseteq> set hof"
proof -
  assume d: "distinct (map fst hof)"
  have inv: "best_inv hof (ip_to_best_conn hof)" by (rule best_inv_final)
  show ?thesis unfolding dedup_hall_eq [OF d] using inv unfolding best_inv_def by fastforce
qed

lemma top_100_sorted:
  fixes xs :: "(string \<times> conn) list"
  defines "s \<equiv> sort_key (\<lambda>(k, c). - duration c) xs"
  shows "sorted_wrt (\<lambda>x y. duration (snd x) \<ge> duration (snd y)) (take n s)"
    and "\<forall>x \<in> set (take n s). \<forall>y \<in> set xs - set (take n s). duration (snd y) \<le> duration (snd x)"
proof -
  have "sorted (map (\<lambda>(k, c). - duration c) s)" unfolding s_def by (rule sorted_sort_key)
  then have sw: "sorted_wrt (\<lambda>x y. duration (snd x) \<ge> duration (snd y)) s"
    by (simp add: sorted_map case_prod_beta)
  then show "sorted_wrt (\<lambda>x y. duration (snd x) \<ge> duration (snd y)) (take n s)"
    by (rule sorted_wrt_take)
  from sw have "sorted_wrt (\<lambda>x y. duration (snd x) \<ge> duration (snd y)) (take n s @ drop n s)"
    by simp
  then have td: "\<forall>x \<in> set (take n s). \<forall>y \<in> set (drop n s). duration (snd y) \<le> duration (snd x)"
    unfolding sorted_wrt_append by blast
  have "set xs = set (take n s) \<union> set (drop n s)"
    by (metis append_take_drop_id set_append set_sort s_def)
  with td show "\<forall>x \<in> set (take n s). \<forall>y \<in> set xs - set (take n s). duration (snd y) \<le> duration (snd x)"
    by blast
qed

lemma hall_after_parse:
  "hall_of_fame (parse_endlessh_logs inp st) =
     (case output_6h inp of
        None \<Rightarrow> hall_of_fame st
      | Some ls \<Rightarrow>
          merge_hall ls (p_conns (accept_pass (geo_api inp) (clock inp) ls (ip_locations st) (requests st)))
            (hall_of_fame st))"
  by (simp add: parse_endlessh_logs_def Let_def save_hall_of_fame_def
      split: option.splits prod.splits save_outcome.splits)





lemma example_ip_inj: "inj example_ip"
proof (rule injI)
  fix m n assume "example_ip m = example_ip n"
  then have "replicate (Suc m) CHR ''1'' = replicate (Suc n) CHR ''1''"
    by (simp add: example_ip_def)
  then have "length (replicate (Suc m) CHR ''1'') = length (replicate (Suc n) CHR ''1'')"
    by (rule arg_cong)
  then show "m = n" by simp
qed

lemma example_big_hall_distinct: "distinct (map fst example_big_hall)"
proof -
  have "inj (\<lambda>n. conn_id_of (example_ip n) ''22'')"
    using example_ip_inj by (auto simp: inj_def conn_id_of_def)
  then have "inj_on (\<lambda>n. conn_id_of (example_ip n) ''22'') (set [0..<150])"
    by (rule inj_on_subset) simp
  then show ?thesis by (simp add: example_big_hall_def comp_def distinct_map)
qed

lemma example_big_hall_origins: "card ((\<lambda>e. ip (snd e)) ` set example_big_hall) = 150"
proof -
  have "(\<lambda>e. ip (snd e)) ` set example_big_hall = example_ip ` {0..<150}"
    by (simp add: example_big_hall_def image_image example_conn_def)
  moreover have "card (example_ip ` {0..<150}) = card {0..<150::nat}"
    by (rule card_image) (rule inj_on_subset [OF example_ip_inj], simp)
  ultimately show ?thesis by simp
qed


section \<open>The reconciliation loops\<close>

lemma set_dict_set_subset: "set (dict_set d k v) \<subseteq> insert (k, v) (set d)"
  by (induction d k v rule: dict_set.induct) auto

lemma dict_set_keys: "fst ` set (dict_set d k v) = insert k (fst ` set d)"
  by (induction d k v rule: dict_set.induct) auto

lemma dict_set_same_keys: "k \<in> fst ` set d \<Longrightarrow> map fst (dict_set d k v) = map fst d"
  by (simp add: keys_dict_set)

lemma closed_ports_of_iff:
  "p \<in> closed_ports_of ls \<longleftrightarrow> (\<exists>l m. l \<in> set ls \<and> close_m l = Some m \<and> c_port m = p)"
  by (force simp: closed_ports_of_def List.map_filter_def)

lemma accept_step_None: "accept_m l = None \<Longrightarrow> accept_step api now cp l s = s"
  by (simp add: accept_step_def)

lemma accept_step_conns:
  assumes "accept_m l = Some m"
  shows "\<exists>c. p_conns (accept_step api now cp l s) = dict_set (p_conns s) (conn_id_of (a_ip m) (a_port m)) c
           \<and> built_from now cp l (conn_id_of (a_ip m) (a_port m), c) \<and> duration c = 0"
  using assms
  by (intro exI [of _ "new_conn now cp l m (fst (lookup_if_missing api (a_ip m) (p_locs s, p_reqs s)) (a_ip m))"])
     (simp add: accept_step_def Let_def built_from_def new_conn_def)

lemma accept_fold_built:
  assumes "e \<in> set (p_conns (fold (accept_step api now cp) xs s))"
  shows "e \<in> set (p_conns s) \<or> (\<exists>l \<in> set xs. built_from now cp l e \<and> duration (snd e) = 0)"
  using assms
proof (induction xs arbitrary: s)
  case Nil
  then show ?case by simp
next
  case (Cons l xs)
  from Cons.IH [of "accept_step api now cp l s"] Cons.prems
  consider "e \<in> set (p_conns (accept_step api now cp l s))"
    | "\<exists>l \<in> set xs. built_from now cp l e \<and> duration (snd e) = 0" by auto
  then show ?case
  proof cases
    case 1
    show ?thesis
    proof (cases "accept_m l")
      case None
      with 1 show ?thesis by (simp add: accept_step_None)
    next
      case (Some m)
      from accept_step_conns [OF Some, of api now cp s] obtain c where
        c: "p_conns (accept_step api now cp l s) = dict_set (p_conns s) (conn_id_of (a_ip m) (a_port m)) c"
           "built_from now cp l (conn_id_of (a_ip m) (a_port m), c)" "duration c = 0" by blast
      from 1 c(1) set_dict_set_subset have "e = (conn_id_of (a_ip m) (a_port m), c) \<or> e \<in> set (p_conns s)"
        by fastforce
      with c(2,3) show ?thesis by auto
    qed
  next
    case 2
    then show ?thesis by auto
  qed
qed

lemma accept_pass_built:
  "e \<in> set (p_conns (accept_pass api now ls locs reqs))
     \<Longrightarrow> \<exists>l \<in> set ls. built_from now (closed_ports_of ls) l e \<and> duration (snd e) = 0"
  unfolding accept_pass_def by (drule accept_fold_built) simp

lemma accept_fold_keys:
  "fst ` set (p_conns (fold (accept_step api now cp) xs s)) =
     fst ` set (p_conns s) \<union> {conn_id_of (a_ip m) (a_port m) |l m. l \<in> set xs \<and> accept_m l = Some m}"
proof (induction xs arbitrary: s)
  case Nil
  then show ?case by simp
next
  case (Cons l xs)
  show ?case
  proof (cases "accept_m l")
    case None
    then show ?thesis by (auto simp: accept_step_None Cons.IH)
  next
    case (Some m)
    from accept_step_conns [OF Some, of api now cp s] obtain c where
      "p_conns (accept_step api now cp l s) = dict_set (p_conns s) (conn_id_of (a_ip m) (a_port m)) c"
      by blast
    then have "fst ` set (p_conns (accept_step api now cp l s))
        = insert (conn_id_of (a_ip m) (a_port m)) (fst ` set (p_conns s))"
      by (simp add: dict_set_keys)
    then show ?thesis using Some by (auto simp: Cons.IH)
  qed
qed

lemma accept_pass_keys:
  "fst ` set (p_conns (accept_pass api now ls locs reqs)) =
     {conn_id_of (a_ip m) (a_port m) |l m. l \<in> set ls \<and> accept_m l = Some m}"
  unfolding accept_pass_def by (simp add: accept_fold_keys)

lemma accept_fold_distinct:
  "distinct (map fst (p_conns s)) \<Longrightarrow> distinct (map fst (p_conns (fold (accept_step api now cp) xs s)))"
proof (induction xs arbitrary: s)
  case Nil
  then show ?case by simp
next
  case (Cons l xs)
  have "distinct (map fst (p_conns (accept_step api now cp l s)))"
  proof (cases "accept_m l")
    case None
    with Cons.prems show ?thesis by (simp add: accept_step_None)
  next
    case (Some m)
    from accept_step_conns [OF Some, of api now cp s] Cons.prems show ?thesis
      by (auto simp: distinct_dict_set)
  qed
  from Cons.IH [OF this] show ?case by simp
qed

lemma accept_pass_distinct: "distinct (map fst (p_conns (accept_pass api now ls locs reqs)))"
  unfolding accept_pass_def by (rule accept_fold_distinct) simp

text \<open>The loop over the CLOSE lines keeps the keys and changes durations only.\<close>

lemma close_step_no_close: "close_m l = None \<Longrightarrow> close_step l (conns, hof) = (conns, hof)"
  by (simp add: close_step_def)

lemma close_step_no_open:
  "close_m l = Some m \<Longrightarrow> map_of conns (conn_id_of (c_ip m) (c_port m)) = None
     \<Longrightarrow> close_step l (conns, hof) = (conns, hof)"
  by (simp add: close_step_def)

lemma close_step_match:
  "close_m l = Some m \<Longrightarrow> map_of conns (conn_id_of (c_ip m) (c_port m)) = Some c
     \<Longrightarrow> close_step l (conns, hof) =
          (dict_set conns (conn_id_of (c_ip m) (c_port m)) (c\<lparr>duration := c_time m\<rparr>),
           dict_set hof (conn_id_of (c_ip m) (c_port m)) (c\<lparr>duration := c_time m\<rparr>))"
  by (simp add: close_step_def Let_def)

lemma close_step_keys: "map fst (fst (close_step l s)) = map fst (fst s)"
proof (cases s)
  case (Pair conns hof)
  show ?thesis
  proof (cases "close_m l")
    case None
    then show ?thesis by (simp add: close_step_def Pair)
  next
    case (Some m)
    show ?thesis
    proof (cases "map_of conns (conn_id_of (c_ip m) (c_port m))")
      case None
      then show ?thesis by (simp add: close_step_def Pair Some)
    next
      case (Some c)
      then have "conn_id_of (c_ip m) (c_port m) \<in> fst ` set conns"
        by (meson domI domIff map_of_eq_None_iff)
      then show ?thesis
        by (simp add: close_step_match [OF \<open>close_m l = Some m\<close> Some] Pair dict_set_same_keys)
    qed
  qed
qed

lemma close_fold_keys: "map fst (fst (fold close_step ls s)) = map fst (fst s)"
  by (induction ls arbitrary: s) (simp_all add: close_step_keys)

lemma close_pass_keys: "map fst (fst (close_pass ls conns hof)) = map fst conns"
  by (simp add: close_pass_def close_fold_keys)

lemma close_step_fst_hof: "fst (close_step l (conns, hof)) = fst (close_step l (conns, hof'))"
  by (simp add: close_step_def Let_def split: option.splits)

lemma close_fold_fst_hof: "fst (fold close_step ls (conns, hof)) = fst (fold close_step ls (conns, hof'))"
proof (induction ls arbitrary: conns hof hof')
  case Nil
  then show ?case by simp
next
  case (Cons l ls)
  obtain c1 h1 where 1: "close_step l (conns, hof) = (c1, h1)" by (cases "close_step l (conns, hof)")
  obtain c2 h2 where 2: "close_step l (conns, hof') = (c2, h2)" by (cases "close_step l (conns, hof')")
  from close_step_fst_hof [of l conns hof hof'] 1 2 have "c1 = c2" by simp
  with Cons.IH [of c1 h1 h2] 1 2 show ?case by simp
qed

lemma close_pass_fst_hof: "fst (close_pass ls conns hof) = fst (close_pass ls conns hof')"
  by (simp add: close_pass_def close_fold_fst_hof)

lemma close_step_entries:
  assumes "e' \<in> set (fst (close_step l s))"
  shows "\<exists>e \<in> set (fst s). fst e' = fst e \<and> (\<exists>d. snd e' = (snd e)\<lparr>duration := d\<rparr>)"
proof (cases s)
  case (Pair conns hof)
  have triv: "\<exists>e \<in> set conns. fst e' = fst e \<and> (\<exists>d. snd e' = (snd e)\<lparr>duration := d\<rparr>)"
    if "e' \<in> set conns"
    using that by (intro bexI [of _ e'] conjI exI [of _ "duration (snd e')"]) simp_all
  show ?thesis
  proof (cases "close_m l")
    case None
    with assms triv show ?thesis by (simp add: close_step_def Pair)
  next
    case (Some m)
    show ?thesis
    proof (cases "map_of conns (conn_id_of (c_ip m) (c_port m))")
      case None
      with assms triv show ?thesis by (simp add: close_step_def Pair Some)
    next
      case (Some c)
      then have c: "(conn_id_of (c_ip m) (c_port m), c) \<in> set conns" by (rule map_of_SomeD)
      from assms have "e' \<in> set (dict_set conns (conn_id_of (c_ip m) (c_port m)) (c\<lparr>duration := c_time m\<rparr>))"
        by (simp add: close_step_match [OF \<open>close_m l = Some m\<close> Some] Pair)
      with set_dict_set_subset
      have "e' = (conn_id_of (c_ip m) (c_port m), c\<lparr>duration := c_time m\<rparr>) \<or> e' \<in> set conns"
        by fastforce
      then show ?thesis
      proof
        assume "e' = (conn_id_of (c_ip m) (c_port m), c\<lparr>duration := c_time m\<rparr>)"
        with c show ?thesis unfolding Pair
          by (intro bexI [of _ "(conn_id_of (c_ip m) (c_port m), c)"]) auto
      next
        assume "e' \<in> set conns"
        with triv show ?thesis by (simp add: Pair)
      qed
    qed
  qed
qed

lemma close_fold_entries:
  assumes "e' \<in> set (fst (fold close_step ls s))"
  shows "\<exists>e \<in> set (fst s). fst e' = fst e \<and> (\<exists>d. snd e' = (snd e)\<lparr>duration := d\<rparr>)"
  using assms
proof (induction ls arbitrary: s)
  case Nil
  then show ?case by (intro bexI [of _ e'] conjI exI [of _ "duration (snd e')"]) simp_all
next
  case (Cons l ls)
  from Cons.IH [of "close_step l s"] Cons.prems obtain e1 d1 where
    e1: "e1 \<in> set (fst (close_step l s))" "fst e' = fst e1" "snd e' = (snd e1)\<lparr>duration := d1\<rparr>"
    by auto
  from close_step_entries [OF e1(1)] obtain e d where
    e: "e \<in> set (fst s)" "fst e1 = fst e" "snd e1 = (snd e)\<lparr>duration := d\<rparr>" by blast
  from e1 e show ?case by (intro bexI [of _ e] conjI exI [of _ d1]) simp_all
qed

lemma built_from_duration:
  "built_from now cp l e \<Longrightarrow> fst e' = fst e \<Longrightarrow> snd e' = (snd e)\<lparr>duration := d\<rparr>
     \<Longrightarrow> built_from now cp l e'"
  by (simp add: built_from_def split: option.splits)

lemma recompute_entries:
  assumes "e' \<in> set (recompute_trapped now conns)"
  shows "\<exists>e \<in> set conns. fst e' = fst e \<and> (\<exists>d. snd e' = (snd e)\<lparr>duration := d\<rparr>)"
proof -
  from assms obtain e where e: "e \<in> set conns" "e' = (fst e, live now (snd e))"
    by (auto simp: recompute_trapped_def)
  show ?thesis
  proof (cases "status (snd e) = Trapped")
    case True
    with e show ?thesis
      by (intro bexI [of _ e] conjI exI [of _ "now - started (snd e)"]) (simp_all add: live_def)
  next
    case False
    with e show ?thesis
      by (intro bexI [of _ e] conjI exI [of _ "duration (snd e)"]) (simp_all add: live_def)
  qed
qed

lemma working_set_built:
  assumes "e \<in> set (working_set api now ls locs reqs)"
  shows "\<exists>l \<in> set ls. built_from now (closed_ports_of ls) l e"
proof -
  from recompute_entries [OF assms [unfolded working_set_def]] obtain e1 d1 where
    e1: "e1 \<in> set (fst (close_pass ls (p_conns (accept_pass api now ls locs reqs)) []))"
        "fst e = fst e1" "snd e = (snd e1)\<lparr>duration := d1\<rparr>" by blast
  from close_fold_entries [OF e1(1) [unfolded close_pass_def]] obtain e0 d0 where
    e0: "e0 \<in> set (p_conns (accept_pass api now ls locs reqs))"
        "fst e1 = fst e0" "snd e1 = (snd e0)\<lparr>duration := d0\<rparr>" by auto
  from accept_pass_built [OF e0(1)] obtain l where
    l: "l \<in> set ls" "built_from now (closed_ports_of ls) l e0" by blast
  from built_from_duration [OF l(2) e0(2,3)] have "built_from now (closed_ports_of ls) l e1" .
  from built_from_duration [OF this e1(2,3)] l(1) show ?thesis by blast
qed

lemma working_set_keys:
  "fst ` set (working_set api now ls locs reqs) =
     {conn_id_of (a_ip m) (a_port m) |l m. l \<in> set ls \<and> accept_m l = Some m}"
proof -
  let ?c = "p_conns (accept_pass api now ls locs reqs)"
  have "map fst (working_set api now ls locs reqs) = map fst (fst (close_pass ls ?c []))"
    by (simp add: working_set_def recompute_trapped_def comp_def case_prod_beta)
  also have "\<dots> = map fst ?c" by (rule close_pass_keys)
  finally have "set (map fst (working_set api now ls locs reqs)) = set (map fst ?c)" by simp
  then show ?thesis by (simp add: accept_pass_keys)
qed

section \<open>Classification of the connections\<close>

lemmas example_line_defs = accept_line_def close_line_def stamp_def no_geo_service_def

lemmas pass_defs = working_set_def accept_pass_def accept_step_def close_pass_def close_step_def
  closed_ports_of_def new_conn_def lookup_if_missing_def recompute_trapped_def live_def
  get_geoip_data_def conn_id_of_def strip_quotes_def get_default_def fallback_geo_def
  List.map_filter_def

lemma example_port_clash_working_set:
  "working_set no_geo_service 2000 example_port_clash Map.empty []
     = [(''203.0.113.5:40001'',
         \<lparr>ip = ''203.0.113.5'', port = ''40001'', fd = ''4'', country = ''Unknown'',
          city = ''Unknown'', country_code = ''XX'', started = 1000, duration = 0,
          status = Released\<rparr>)]"
  by (simp add: example_port_clash_def example_line_defs pass_defs)

text \<open>
  C1, as stated, fails: the address 203.0.113.5 opens port 40001 and no CLOSE line has
  that pair, only the address 198.51.100.7 closes a port 40001; yet the record of
  203.0.113.5 is classified released.
\<close>

theorem port_index_counterexample:
  "(''203.0.113.5'', ''40001'') \<notin> spec_terminated_index example_port_clash
   \<and> working_set no_geo_service 2000 example_port_clash Map.empty []
       = [(''203.0.113.5:40001'',
           \<lparr>ip = ''203.0.113.5'', port = ''40001'', fd = ''4'', country = ''Unknown'',
            city = ''Unknown'', country_code = ''XX'', started = 1000, duration = 0,
            status = Released\<rparr>)]"
  using example_port_clash_working_set
  by (simp add: spec_terminated_index_def example_port_clash_def example_line_defs
      List.map_filter_def)

text \<open>
  C1, amended. The index \<^verbatim>\<open>closed_ports\<close> is the set of the ports of the CLOSE lines of
  the window. Every record of the working set was built from an ACCEPT line, under the
  key of its address and port, and it is classified released if and only if its port is
  in the index, trapped otherwise; so a CLOSE line of any address with that port makes it
  released.
\<close>

theorem status_decided_by_closed_port:
  assumes "(k, c) \<in> set (working_set api now ls locs reqs)"
  shows "closed_ports_of ls = {c_port m |l m. l \<in> set ls \<and> close_m l = Some m}
     \<and> (\<exists>l m. l \<in> set ls \<and> accept_m l = Some m \<and> k = conn_id_of (a_ip m) (a_port m)
            \<and> ip c = a_ip m \<and> port c = a_port m)
     \<and> (status c = Released \<longleftrightarrow> port c \<in> closed_ports_of ls)
     \<and> (status c = Trapped \<longleftrightarrow> port c \<notin> closed_ports_of ls)
     \<and> (\<forall>l m. l \<in> set ls \<and> close_m l = Some m \<and> c_port m = port c \<longrightarrow> status c = Released)"
proof -
  have idx: "closed_ports_of ls = {c_port m |l m. l \<in> set ls \<and> close_m l = Some m}"
    by (rule set_eqI) (simp add: closed_ports_of_iff, blast)
  from working_set_built [OF assms] obtain l where
    l: "l \<in> set ls" "built_from now (closed_ports_of ls) l (k, c)" by blast
  from l(2) obtain m where m: "accept_m l = Some m" "k = conn_id_of (a_ip m) (a_port m)"
      "ip c = a_ip m" "port c = a_port m"
      "status c = (if a_port m \<in> closed_ports_of ls then Released else Trapped)"
    by (auto simp: built_from_def split: option.splits)
  from l(1) m(1-4) have ex: "\<exists>l m. l \<in> set ls \<and> accept_m l = Some m
      \<and> k = conn_id_of (a_ip m) (a_port m) \<and> ip c = a_ip m \<and> port c = a_port m" by blast
  from m(4,5) have r: "status c = Released \<longleftrightarrow> port c \<in> closed_ports_of ls" by simp
  from m(4,5) have t: "status c = Trapped \<longleftrightarrow> port c \<notin> closed_ports_of ls" by simp
  have a: "\<forall>l m. l \<in> set ls \<and> close_m l = Some m \<and> c_port m = port c \<longrightarrow> status c = Released"
    unfolding r closed_ports_of_iff by blast
  from idx ex r t a show ?thesis by blast
qed

theorem status_decided_by_closed_port_witness:
  "(''203.0.113.5:40001'', example_conn ''203.0.113.5'' ''40001'' 0 Released\<lparr>started := 1000\<rparr>)
      \<in> set (working_set no_geo_service 2000 example_port_clash Map.empty [])
   \<and> ''40001'' \<in> closed_ports_of example_port_clash
   \<and> status (example_conn ''203.0.113.5'' ''40001'' 0 Released\<lparr>started := 1000\<rparr>) = Released"
proof -
  have m: "(''203.0.113.5:40001'', example_conn ''203.0.113.5'' ''40001'' 0 Released\<lparr>started := 1000\<rparr>)
      \<in> set (working_set no_geo_service 2000 example_port_clash Map.empty [])"
    by (simp add: example_port_clash_working_set example_conn_def)
  have p: "port (example_conn ''203.0.113.5'' ''40001'' 0 Released\<lparr>started := 1000\<rparr>) = ''40001''"
    by (simp add: example_conn_def)
  have c: "''40001'' \<in> closed_ports_of example_port_clash"
    by (simp add: closed_ports_of_def example_port_clash_def example_line_defs List.map_filter_def)
  from status_decided_by_closed_port [OF m]
  have "status (example_conn ''203.0.113.5'' ''40001'' 0 Released\<lparr>started := 1000\<rparr>) = Released
    \<longleftrightarrow> ''40001'' \<in> closed_ports_of example_port_clash"
    unfolding p by (elim conjE)
  with m c show ?thesis by simp
qed

section \<open>The counter of connections\<close>

lemma count_step_id:
  "count_step l (seen, n) =
     (case line_id l of
        None \<Rightarrow> (seen, n)
      | Some i \<Rightarrow> if i \<notin> seen then (insert i seen, n + 1) else (seen, n))"
  by (simp add: count_step_def line_id_def Let_def split: option.splits)

lemma log_ids_Cons:
  "log_ids (l # ls) = (case line_id l of None \<Rightarrow> log_ids ls | Some i \<Rightarrow> insert i (log_ids ls))"
  by (simp add: log_ids_def List.map_filter_def split: option.splits)

lemma finite_log_ids: "finite (log_ids ls)"
  by (simp add: log_ids_def)

lemma count_fold:
  "fold count_step ls (seen, n) = (seen \<union> log_ids ls, n + card (log_ids ls - seen))"
proof (induction ls arbitrary: seen n)
  case Nil
  then show ?case by (simp add: log_ids_def List.map_filter_def)
next
  case (Cons l ls)
  show ?case
  proof (cases "line_id l")
    case None
    then show ?thesis by (simp add: count_step_id log_ids_Cons Cons.IH)
  next
    case (Some i)
    show ?thesis
    proof (cases "i \<in> seen")
      case True
      then have "insert i (log_ids ls) - seen = log_ids ls - seen" by auto
      with True show ?thesis by (simp add: count_step_id log_ids_Cons Some Cons.IH insert_absorb)
    next
      case False
      have fin: "finite (log_ids ls - insert i seen)" using finite_log_ids by simp
      have "insert i (log_ids ls) - seen = insert i (log_ids ls - insert i seen)"
        using False by auto
      then have "card (insert i (log_ids ls) - seen) = Suc (card (log_ids ls - insert i seen))"
        using fin by simp
      with False show ?thesis by (simp add: count_step_id log_ids_Cons Some Cons.IH)
    qed
  qed
qed

lemma count_pass_eq:
  "count_pass ls (seen, n) = (seen \<union> log_ids ls, n + card (log_ids ls - seen))"
  by (simp add: count_pass_def count_fold)

lemma counter_after_parse:
  "total_connections_counter (parse_endlessh_logs inp st) =
     (case output_6h inp of
        None \<Rightarrow> total_connections_counter st
      | Some w \<Rightarrow>
          total_connections_counter st
            + card (log_ids (case output_5min inp of None \<Rightarrow> [] | Some x \<Rightarrow> x) - seen_log_entries st))"
  by (simp add: parse_endlessh_logs_def Let_def count_pass_eq save_hall_of_fame_def
      split: option.splits save_outcome.splits)

lemma seen_after_parse:
  "seen_log_entries (parse_endlessh_logs inp st) =
     (case output_6h inp of
        None \<Rightarrow> seen_log_entries st
      | Some w \<Rightarrow>
          cleanup_seen (seen_log_entries st
            \<union> log_ids (case output_5min inp of None \<Rightarrow> [] | Some x \<Rightarrow> x)))"
  by (simp add: parse_endlessh_logs_def Let_def count_pass_eq save_hall_of_fame_def
      split: option.splits save_outcome.splits)

lemma counter_mono: "total_connections_counter st \<le> total_connections_counter (parse_endlessh_logs inp st)"
  by (simp add: counter_after_parse split: option.splits)

lemma counter_mono_passes:
  "total_connections_counter st \<le> total_connections_counter (fold parse_endlessh_logs inps st)"
proof (induction inps arbitrary: st)
  case Nil
  then show ?case by simp
next
  case (Cons inp inps)
  from counter_mono [of st inp] Cons.IH [of "parse_endlessh_logs inp st"] show ?case by simp
qed

text \<open>
  C2. The identifier of the source is built from the time stamp and group 2 of the ACCEPT
  pattern, the port, although the source names it \<^verbatim>\<open>fd\<close>: two ACCEPT lines of the same
  second on the same descriptor and two ports are counted twice, and two lines of the same
  second and port number on two descriptors are counted once.
\<close>

theorem counter_identifier_is_timestamp_and_port:
  "count_pass example_same_fd ({}, 0)
     = ({''2025-10-14T16:17:13_40001'', ''2025-10-14T16:17:13_40002''}, 2)
   \<and> count_pass example_same_port ({}, 0) = ({''2025-10-14T16:17:13_40001''}, 1)"
  by (simp add: count_pass_def count_step_def example_same_fd_def example_same_port_def
      example_line_defs log_id_of_def Let_def insert_commute)

lemma flood_ids: "log_ids flood_lines = (\<lambda>n. log_id_of ''2025-10-14T16:17:13'' (replicate (Suc n) CHR ''1'')) ` {0..<1001}"
proof -
  have "line_id (flood_line n) = Some (log_id_of ''2025-10-14T16:17:13'' (replicate (Suc n) CHR ''1''))" for n
    by (simp add: line_id_def flood_line_def example_line_defs)
  then have "List.map_filter line_id flood_lines
      = map (\<lambda>n. log_id_of ''2025-10-14T16:17:13'' (replicate (Suc n) CHR ''1'')) [0..<1001]"
    by (simp add: flood_lines_def List.map_filter_def comp_def)
  then show ?thesis by (simp add: log_ids_def)
qed

lemma card_flood_ids: "card (log_ids flood_lines) = 1001"
proof -
  have inj: "inj (\<lambda>n. log_id_of ''2025-10-14T16:17:13'' (replicate (Suc n) CHR ''1''))"
  proof (rule injI)
    fix m n
    assume "log_id_of ''2025-10-14T16:17:13'' (replicate (Suc m) CHR ''1'')
          = log_id_of ''2025-10-14T16:17:13'' (replicate (Suc n) CHR ''1'')"
    then have "replicate (Suc m) CHR ''1'' = replicate (Suc n) CHR ''1''"
      by (simp add: log_id_of_def)
    then have "length (replicate (Suc m) CHR ''1'') = length (replicate (Suc n) CHR ''1'')"
      by (rule arg_cong)
    then show "m = n" by simp
  qed
  have "card ((\<lambda>n. log_id_of ''2025-10-14T16:17:13'' (replicate (Suc n) CHR ''1'')) ` {0..<1001})
      = card {0..<1001::nat}"
    by (intro card_image) (rule inj_on_subset [OF inj subset_UNIV])
  then show ?thesis by (simp add: flood_ids)
qed

lemma flood_first_pass:
  "total_connections_counter (parse_endlessh_logs flood_scrape initial_engine) = 1001"
  "seen_log_entries (parse_endlessh_logs flood_scrape initial_engine) = {}"
  by (simp_all add: counter_after_parse seen_after_parse flood_scrape_def initial_engine_def
      card_flood_ids cleanup_seen_def)

text \<open>
  C5, as stated, fails: a short window of 1001 ACCEPT lines is counted, 1001 in all, and
  the recency set, now above 1000, is emptied; the next pass reads the first of these lines
  again and counts it a second time.
\<close>

theorem recount_after_clear_counterexample:
  "length flood_lines = 1001
   \<and> flood_line 0 \<in> set flood_lines
   \<and> total_connections_counter (parse_endlessh_logs flood_scrape initial_engine) = 1001
   \<and> seen_log_entries (parse_endlessh_logs flood_scrape initial_engine) = {}
   \<and> total_connections_counter
        (parse_endlessh_logs flood_again (parse_endlessh_logs flood_scrape initial_engine)) = 1002"
proof -
  have "flood_line 0 \<in> set flood_lines" by (simp add: flood_lines_def)
  moreover have one: "card (log_ids [flood_line 0]) = 1"
    by (simp add: log_ids_def List.map_filter_def line_id_def flood_line_def example_line_defs)
  have out: "output_6h flood_again = Some flood_lines" "output_5min flood_again = Some [flood_line 0]"
    by (simp_all add: flood_again_def)
  have "total_connections_counter
        (parse_endlessh_logs flood_again (parse_endlessh_logs flood_scrape initial_engine)) = 1002"
    unfolding counter_after_parse [of flood_again] out by (simp add: flood_first_pass one)
  ultimately show ?thesis by (simp add: flood_first_pass flood_lines_def)
qed

text \<open>
  C5, amended. Over any sequence of passes the counter does not decrease. A pass adds to
  it the number of identifiers of its short window that are not in the recency set. When
  the recency set is not emptied at the end of a pass (it holds at most 1000 identifiers),
  the identifier of a line of its short window is not among those the next pass adds, so
  the line is counted at most once.
\<close>

theorem counter_monotone_no_recount_without_clear:
  assumes "output_6h inp1 = Some w1" and "output_5min inp1 = Some ls1"
    and "output_6h inp2 = Some w2" and "output_5min inp2 = Some ls2"
    and "l \<in> set ls1" and "l \<in> set ls2" and "line_id l = Some i"
    and "card (seen_log_entries st \<union> log_ids ls1) \<le> 1000"
  shows "total_connections_counter st0 \<le> total_connections_counter (fold parse_endlessh_logs inps st0)
    \<and> total_connections_counter (parse_endlessh_logs inp1 st)
        = total_connections_counter st + card (log_ids ls1 - seen_log_entries st)
    \<and> total_connections_counter (parse_endlessh_logs inp2 (parse_endlessh_logs inp1 st))
        = total_connections_counter (parse_endlessh_logs inp1 st)
          + card (log_ids ls2 - (seen_log_entries st \<union> log_ids ls1))
    \<and> i \<notin> log_ids ls2 - (seen_log_entries st \<union> log_ids ls1)"
proof -
  have 1: "total_connections_counter st0 \<le> total_connections_counter (fold parse_endlessh_logs inps st0)"
    by (rule counter_mono_passes)
  have 2: "total_connections_counter (parse_endlessh_logs inp1 st)
        = total_connections_counter st + card (log_ids ls1 - seen_log_entries st)"
    by (simp add: counter_after_parse assms(1,2))
  have seen1: "seen_log_entries (parse_endlessh_logs inp1 st) = seen_log_entries st \<union> log_ids ls1"
    using assms(8) by (simp add: seen_after_parse assms(1,2) cleanup_seen_def)
  have 3: "total_connections_counter (parse_endlessh_logs inp2 (parse_endlessh_logs inp1 st))
        = total_connections_counter (parse_endlessh_logs inp1 st)
          + card (log_ids ls2 - (seen_log_entries st \<union> log_ids ls1))"
    by (simp add: counter_after_parse [of inp2] assms(3,4) seen1)
  have "i \<in> log_ids ls1"
    using assms(5,7) by (force simp: log_ids_def List.map_filter_def)
  then have 4: "i \<notin> log_ids ls2 - (seen_log_entries st \<union> log_ids ls1)" by simp
  from 1 2 3 4 show ?thesis by blast
qed

theorem counter_monotone_no_recount_without_clear_witness:
  "card (seen_log_entries initial_engine \<union> log_ids example_same_fd) \<le> 1000
   \<and> line_id (accept_line ''203.0.113.5'' ''40001'' ''4'' 1 (stamp ''2025-10-14T16:17:13'' 1000))
       = Some ''2025-10-14T16:17:13_40001''
   \<and> total_connections_counter initial_engine
       \<le> total_connections_counter (fold parse_endlessh_logs [example_first_scrape, example_second_scrape] initial_engine)
   \<and> total_connections_counter (parse_endlessh_logs example_first_scrape initial_engine) = 2
   \<and> total_connections_counter
       (parse_endlessh_logs example_second_scrape (parse_endlessh_logs example_first_scrape initial_engine)) = 2"
proof -
  let ?l = "accept_line ''203.0.113.5'' ''40001'' ''4'' 1 (stamp ''2025-10-14T16:17:13'' 1000)"
  have ids: "log_ids example_same_fd = {''2025-10-14T16:17:13_40001'', ''2025-10-14T16:17:13_40002''}"
    by (simp add: log_ids_def List.map_filter_def line_id_def example_same_fd_def
        example_line_defs log_id_of_def)
  have c: "card (seen_log_entries initial_engine \<union> log_ids example_same_fd) \<le> 1000"
    by (simp add: ids initial_engine_def)
  have i: "line_id ?l = Some ''2025-10-14T16:17:13_40001''"
    by (simp add: line_id_def example_line_defs log_id_of_def)
  have m: "?l \<in> set example_same_fd" by (simp add: example_same_fd_def)
  have o: "output_6h example_first_scrape = Some example_same_fd"
      "output_5min example_first_scrape = Some example_same_fd"
      "output_6h example_second_scrape = Some example_same_fd"
      "output_5min example_second_scrape = Some example_same_fd"
    by (simp_all add: example_first_scrape_def example_second_scrape_def)
  have e: "seen_log_entries initial_engine = {}" "total_connections_counter initial_engine = 0"
    by (simp_all add: initial_engine_def)
  from counter_monotone_no_recount_without_clear [OF o m m i c,
      of initial_engine "[example_first_scrape, example_second_scrape]"]
  show ?thesis using c i by (simp add: ids e)
qed

section \<open>Durations\<close>

lemma conn_id_of_inj:
  assumes "CHR '':'' \<notin> set a" and "CHR '':'' \<notin> set a'"
    and "conn_id_of a p = conn_id_of a' p'"
  shows "a = a' \<and> p = p'"
  using assms
proof (induction a arbitrary: a')
  case Nil
  then show ?case by (cases a') (auto simp: conn_id_of_def)
next
  case (Cons x a)
  show ?case
  proof (cases a')
    case Nil
    with Cons.prems show ?thesis by (auto simp: conn_id_of_def)
  next
    case (Cons y b)
    with Cons.prems have "x = y" "conn_id_of a p = conn_id_of b p'"
      by (simp_all add: conn_id_of_def)
    with Cons.IH [of b] Cons.prems Cons show ?thesis by simp
  qed
qed

lemma digits_and_dots_no_colon: "digits_and_dots s \<Longrightarrow> CHR '':'' \<notin> set s"
  by (auto simp: digits_and_dots_def)

lemma map_of_close_step:
  "map_of (fst (close_step l (conns, hof))) k =
     map_option (\<lambda>c. case closes k l of None \<Rightarrow> c | Some d \<Rightarrow> c\<lparr>duration := d\<rparr>) (map_of conns k)"
proof (cases "close_m l")
  case None
  then show ?thesis
    by (simp add: close_step_no_close closes_def option.map_ident)
next
  case (Some m)
  show ?thesis
  proof (cases "map_of conns (conn_id_of (c_ip m) (c_port m))")
    case None
    then show ?thesis
      by (cases "map_of conns k") (auto simp: close_step_no_open [OF Some None] closes_def Some)
  next
    case (Some c)
    show ?thesis
      by (cases "map_of conns k")
        (auto simp: close_step_match [OF \<open>close_m l = Some m\<close> Some] closes_def
          \<open>close_m l = Some m\<close> Some map_of_dict_set)
  qed
qed

lemma map_of_close_fold:
  "map_of (fst (fold close_step ls (conns, hof))) k =
     map_option (\<lambda>c. case last_close_time k ls of None \<Rightarrow> c | Some d \<Rightarrow> c\<lparr>duration := d\<rparr>)
       (map_of conns k)"
proof (induction ls arbitrary: conns hof)
  case Nil
  then show ?case by (simp add: option.map_ident)
next
  case (Cons l ls)
  obtain c1 h1 where s: "close_step l (conns, hof) = (c1, h1)" by (cases "close_step l (conns, hof)")
  from map_of_close_step [of l conns hof k] s
  have 1: "map_of c1 k =
     map_option (\<lambda>c. case closes k l of None \<Rightarrow> c | Some d \<Rightarrow> c\<lparr>duration := d\<rparr>) (map_of conns k)"
    by simp
  show ?case
    by (cases "map_of conns k")
       (auto simp: s Cons.IH 1 split: option.splits)
qed

lemma map_of_recompute:
  "map_of (recompute_trapped now conns) k = map_option (live now) (map_of conns k)"
  by (induction conns) (auto simp: recompute_trapped_def)

lemma last_close_time_Some:
  "last_close_time k ls = Some d \<Longrightarrow>
     \<exists>l m. l \<in> set ls \<and> close_m l = Some m \<and> conn_id_of (c_ip m) (c_port m) = k \<and> c_time m = d"
proof (induction ls)
  case Nil
  then show ?case by simp
next
  case (Cons l ls)
  show ?case
  proof (cases "last_close_time k ls")
    case None
    with Cons.prems have "closes k l = Some d" by simp
    then obtain m where "close_m l = Some m" "conn_id_of (c_ip m) (c_port m) = k" "c_time m = d"
      by (auto simp: closes_def split: option.splits if_splits)
    then show ?thesis by (intro exI [of _ l] exI [of _ m]) simp
  next
    case (Some d')
    with Cons.prems have "d' = d" by simp
    with Cons.IH Some obtain l' m where "l' \<in> set ls" "close_m l' = Some m"
      "conn_id_of (c_ip m) (c_port m) = k" "c_time m = d" by blast
    then show ?thesis by (intro exI [of _ l'] exI [of _ m]) simp
  qed
qed

lemma last_close_time_None:
  "last_close_time k ls = None \<longleftrightarrow>
     \<not> (\<exists>l m. l \<in> set ls \<and> close_m l = Some m \<and> conn_id_of (c_ip m) (c_port m) = k)"
proof (induction ls)
  case Nil
  then show ?case by simp
next
  case (Cons l ls)
  have "closes k l = None \<longleftrightarrow> \<not> (\<exists>m. close_m l = Some m \<and> conn_id_of (c_ip m) (c_port m) = k)"
    by (auto simp: closes_def split: option.splits)
  with Cons.IH show ?case by (auto split: option.splits)
qed

lemma working_set_distinct: "distinct (map fst (working_set api now ls locs reqs))"
proof -
  have "map fst (working_set api now ls locs reqs)
      = map fst (fst (close_pass ls (p_conns (accept_pass api now ls locs reqs)) []))"
    by (simp add: working_set_def recompute_trapped_def comp_def case_prod_beta)
  then show ?thesis by (simp add: close_pass_keys accept_pass_distinct)
qed

lemma working_set_lookup:
  "map_of (working_set api now ls locs reqs) k =
     map_option (\<lambda>c. live now (case last_close_time k ls of None \<Rightarrow> c | Some d \<Rightarrow> c\<lparr>duration := d\<rparr>))
       (map_of (p_conns (accept_pass api now ls locs reqs)) k)"
  by (simp add: working_set_def map_of_recompute close_pass_def map_of_close_fold
      option.map_comp comp_def)

lemma released_unmatched_duration:
  assumes "(k, c) \<in> set (working_set api now ls locs reqs)"
    and "status c = Released" and "last_close_time k ls = None"
  shows "duration c = 0"
proof -
  from assms(1) have "map_of (working_set api now ls locs reqs) k = Some c"
    by (simp add: working_set_distinct)
  then obtain c0 where c0: "map_of (p_conns (accept_pass api now ls locs reqs)) k = Some c0"
      and c: "c = live now (case last_close_time k ls of None \<Rightarrow> c0 | Some d \<Rightarrow> c0\<lparr>duration := d\<rparr>)"
    by (auto simp: working_set_lookup)
  from c0 have "(k, c0) \<in> set (p_conns (accept_pass api now ls locs reqs))" by (rule map_of_SomeD)
  from accept_pass_built [OF this] have d0: "duration c0 = 0" by auto
  from c assms(3) have "c = live now c0" by simp
  with assms(2) d0 show ?thesis by (auto simp: live_def split: if_splits)
qed

lemma example_port_clash_closes:
  "List.map_filter close_m example_port_clash
     = [\<lparr>c_ip = ''198.51.100.7'', c_port = ''40001'', c_fd = ''5'', c_time = 12.5\<rparr>]"
  by (simp add: example_port_clash_def example_line_defs List.map_filter_def)

text \<open>
  C6, as stated, fails: in the window where 203.0.113.5 opens port 40001 and only
  198.51.100.7 closes a port 40001, reporting 12.5 seconds, the record of 203.0.113.5 is
  terminated, no CLOSE line has its key, and its duration is 0, which no close event
  reports.
\<close>

theorem terminated_without_report_counterexample:
  "List.map_filter close_m example_port_clash
     = [\<lparr>c_ip = ''198.51.100.7'', c_port = ''40001'', c_fd = ''5'', c_time = 12.5\<rparr>]
   \<and> last_close_time ''203.0.113.5:40001'' example_port_clash = None
   \<and> working_set no_geo_service 2000 example_port_clash Map.empty []
       = [(''203.0.113.5:40001'',
           \<lparr>ip = ''203.0.113.5'', port = ''40001'', fd = ''4'', country = ''Unknown'',
            city = ''Unknown'', country_code = ''XX'', started = 1000, duration = 0,
            status = Released\<rparr>)]"
proof -
  have "last_close_time ''203.0.113.5:40001'' example_port_clash = None"
    by (simp add: example_port_clash_def example_line_defs closes_def conn_id_of_def)
  with example_port_clash_closes example_port_clash_working_set show ?thesis by simp
qed

text \<open>
  C6, amended. Take a record of the working set of a pass, under the key \<^verbatim>\<open>k\<close>. The key
  matches a CLOSE line of the window exactly when \<^verbatim>\<open>last_close_time\<close> is defined, and
  then the record is released and its duration is the duration that CLOSE line reports
  (the last one, if several match). If the record is released and no CLOSE line matches
  its key, its duration is 0. If the record is trapped, no CLOSE line matches its key and
  its duration is the clock minus its start time.
\<close>

theorem duration_reported_or_live:
  assumes "(k, c) \<in> set (working_set api now ls locs reqs)"
    and "\<forall>l \<in> set ls. line_ok l"
  shows "(last_close_time k ls \<noteq> None \<longleftrightarrow>
            (\<exists>l m. l \<in> set ls \<and> close_m l = Some m \<and> conn_id_of (c_ip m) (c_port m) = k))
     \<and> (\<forall>d. last_close_time k ls = Some d \<longrightarrow>
            status c = Released \<and> duration c = d
            \<and> (\<exists>l m. l \<in> set ls \<and> close_m l = Some m \<and> conn_id_of (c_ip m) (c_port m) = k
                  \<and> c_time m = d))
     \<and> (status c = Released \<and> last_close_time k ls = None \<longrightarrow> duration c = 0)
     \<and> (status c = Trapped \<longrightarrow> last_close_time k ls = None \<and> duration c = now - started c)"
proof -
  have 1: "last_close_time k ls \<noteq> None \<longleftrightarrow>
            (\<exists>l m. l \<in> set ls \<and> close_m l = Some m \<and> conn_id_of (c_ip m) (c_port m) = k)"
    by (simp add: last_close_time_None)
  from assms(1) have look: "map_of (working_set api now ls locs reqs) k = Some c"
    by (simp add: working_set_distinct)
  then obtain c0 where c0: "map_of (p_conns (accept_pass api now ls locs reqs)) k = Some c0"
      and c: "c = live now (case last_close_time k ls of None \<Rightarrow> c0 | Some d \<Rightarrow> c0\<lparr>duration := d\<rparr>)"
    by (auto simp: working_set_lookup)
  from c0 have "(k, c0) \<in> set (p_conns (accept_pass api now ls locs reqs))" by (rule map_of_SomeD)
  from accept_pass_built [OF this] obtain l0 where
    l0: "l0 \<in> set ls" "built_from now (closed_ports_of ls) l0 (k, c0)" by blast
  then obtain m0 where m0: "accept_m l0 = Some m0" "k = conn_id_of (a_ip m0) (a_port m0)"
      "port c0 = a_port m0"
      "status c0 = (if a_port m0 \<in> closed_ports_of ls then Released else Trapped)"
    by (auto simp: built_from_def split: option.splits)
  from assms(2) l0(1) have "line_ok l0" by blast
  then have "digits_and_dots (a_ip m0)" by (simp add: line_ok_def m0(1))
  then have ok0: "CHR '':'' \<notin> set (a_ip m0)" by (rule digits_and_dots_no_colon)
  have closed: "status c0 = Released" if "last_close_time k ls = Some d" for d
  proof -
    from last_close_time_Some [OF that] obtain l m where
      m: "l \<in> set ls" "close_m l = Some m" "conn_id_of (c_ip m) (c_port m) = k" by blast
    from assms(2) m(1) have "line_ok l" by blast
    then have "digits_and_dots (c_ip m)" by (simp add: line_ok_def m(2))
    then have "CHR '':'' \<notin> set (c_ip m)" by (rule digits_and_dots_no_colon)
    from conn_id_of_inj [OF this ok0] m(3) m0(2) have "c_port m = a_port m0" by simp
    with m(1,2) have "a_port m0 \<in> closed_ports_of ls" by (auto simp: closed_ports_of_iff)
    with m0(4) show ?thesis by simp
  qed
  have 2: "status c = Released \<and> duration c = d
            \<and> (\<exists>l m. l \<in> set ls \<and> close_m l = Some m \<and> conn_id_of (c_ip m) (c_port m) = k
                  \<and> c_time m = d)"
    if "last_close_time k ls = Some d" for d
    using closed [OF that] last_close_time_Some [OF that] by (simp add: c that live_def)
  have 3: "last_close_time k ls = None \<and> duration c = now - started c" if t: "status c = Trapped"
  proof -
    have st: "status c = status c0" by (simp add: c live_def split: option.splits)
    have n: "last_close_time k ls = None"
    proof (cases "last_close_time k ls")
      case None
      then show ?thesis .
    next
      case (Some d)
      from closed [OF Some] t st show ?thesis by simp
    qed
    with t st show ?thesis by (simp add: c live_def)
  qed
  have 4: "duration c = 0" if "status c = Released \<and> last_close_time k ls = None"
    using released_unmatched_duration [OF assms(1)] that by simp
  from 1 2 3 4 show ?thesis by blast
qed

lemma example_window_working_set:
  "working_set no_geo_service 2000 example_window Map.empty []
     = [(''203.0.113.5:40001'',
         \<lparr>ip = ''203.0.113.5'', port = ''40001'', fd = ''4'', country = ''Unknown'',
          city = ''Unknown'', country_code = ''XX'', started = 1000, duration = 1000,
          status = Trapped\<rparr>),
        (''203.0.113.9:40002'',
         \<lparr>ip = ''203.0.113.9'', port = ''40002'', fd = ''5'', country = ''Unknown'',
          city = ''Unknown'', country_code = ''XX'', started = 1001, duration = 734.5,
          status = Released\<rparr>)]"
  by (simp add: example_window_def example_line_defs pass_defs Let_def)

lemma example_window_ok: "\<forall>l \<in> set example_window. line_ok l"
  by (simp add: example_window_def example_line_defs line_ok_def digits_and_dots_def)

theorem duration_reported_or_live_witness:
  "list_all line_ok example_window
   \<and> (''203.0.113.9:40002'', example_conn ''203.0.113.9'' ''40002'' 734.5 Released
         \<lparr>fd := ''5'', started := 1001\<rparr>)
       \<in> set (working_set no_geo_service 2000 example_window Map.empty [])
   \<and> last_close_time ''203.0.113.9:40002'' example_window = Some 734.5
   \<and> (''203.0.113.5:40001'', example_conn ''203.0.113.5'' ''40001'' 1000 Trapped
         \<lparr>started := 1000\<rparr>)
       \<in> set (working_set no_geo_service 2000 example_window Map.empty [])
   \<and> last_close_time ''203.0.113.5:40001'' example_window = None"
proof -
  let ?r = "example_conn ''203.0.113.9'' ''40002'' 734.5 Released\<lparr>fd := ''5'', started := 1001\<rparr>"
  let ?t = "example_conn ''203.0.113.5'' ''40001'' 1000 Trapped\<lparr>started := 1000\<rparr>"
  have r: "(''203.0.113.9:40002'', ?r) \<in> set (working_set no_geo_service 2000 example_window Map.empty [])"
    by (simp add: example_window_working_set example_conn_def)
  have t: "(''203.0.113.5:40001'', ?t) \<in> set (working_set no_geo_service 2000 example_window Map.empty [])"
    by (simp add: example_window_working_set example_conn_def)
  have lr: "last_close_time ''203.0.113.9:40002'' example_window = Some 734.5"
    by (simp add: example_window_def example_line_defs closes_def conn_id_of_def)
  have "status ?t = Trapped" by (simp add: example_conn_def)
  with duration_reported_or_live [OF t example_window_ok]
  have lt: "last_close_time ''203.0.113.5:40001'' example_window = None" by blast
  from duration_reported_or_live [OF r example_window_ok] lr
  have "status ?r = Released \<and> duration ?r = 734.5" by blast
  moreover have "list_all line_ok example_window"
    using example_window_ok by (simp add: list_all_iff)
  ultimately show ?thesis using r t lr lt by blast
qed

section \<open>The merge into the Hall of Fame\<close>

text \<open>What the loop over the CLOSE lines leaves in the Hall of Fame.\<close>

lemma map_of_close_step_hof:
  "map_of (snd (close_step l (conns, hof))) k =
     (case map_of conns k of
        None \<Rightarrow> map_of hof k
      | Some r \<Rightarrow> (case closes k l of None \<Rightarrow> map_of hof k | Some d \<Rightarrow> Some (r\<lparr>duration := d\<rparr>)))"
proof (cases "close_m l")
  case None
  then show ?thesis
    by (simp add: close_step_no_close closes_def split: option.splits)
next
  case (Some m)
  show ?thesis
  proof (cases "map_of conns (conn_id_of (c_ip m) (c_port m))")
    case None
    then show ?thesis
      by (auto simp: close_step_no_open [OF Some None] closes_def Some split: option.splits)
  next
    case (Some c)
    show ?thesis
      by (auto simp: close_step_match [OF \<open>close_m l = Some m\<close> Some] closes_def
          \<open>close_m l = Some m\<close> Some map_of_dict_set split: option.splits)
  qed
qed

lemma map_of_close_fold_hof:
  "map_of (snd (fold close_step ls (conns, hof))) k =
     (case map_of conns k of
        None \<Rightarrow> map_of hof k
      | Some r \<Rightarrow>
          (case last_close_time k ls of None \<Rightarrow> map_of hof k | Some d \<Rightarrow> Some (r\<lparr>duration := d\<rparr>)))"
proof (induction ls arbitrary: conns hof)
  case Nil
  then show ?case by (simp split: option.splits)
next
  case (Cons l ls)
  obtain c1 h1 where s: "close_step l (conns, hof) = (c1, h1)" by (cases "close_step l (conns, hof)")
  from map_of_close_step [of l conns hof k] s
  have 1: "map_of c1 k =
     map_option (\<lambda>c. case closes k l of None \<Rightarrow> c | Some d \<Rightarrow> c\<lparr>duration := d\<rparr>) (map_of conns k)"
    by simp
  from map_of_close_step_hof [of l conns hof k] s
  have 2: "map_of h1 k =
     (case map_of conns k of
        None \<Rightarrow> map_of hof k
      | Some r \<Rightarrow> (case closes k l of None \<Rightarrow> map_of hof k | Some d \<Rightarrow> Some (r\<lparr>duration := d\<rparr>)))"
    by simp
  have "map_of (snd (fold close_step ls (c1, h1))) k =
     (case map_of c1 k of
        None \<Rightarrow> map_of h1 k
      | Some r \<Rightarrow>
          (case last_close_time k ls of None \<Rightarrow> map_of h1 k | Some d \<Rightarrow> Some (r\<lparr>duration := d\<rparr>)))"
    by (rule Cons.IH)
  then show ?case
    by (cases "map_of conns k"; cases "closes k l"; cases "last_close_time k ls")
       (simp_all add: s 1 2)
qed

lemma map_of_close_pass_hof:
  "map_of (snd (close_pass ls conns hof)) k =
     (case map_of conns k of
        None \<Rightarrow> map_of hof k
      | Some r \<Rightarrow>
          (case last_close_time k ls of None \<Rightarrow> map_of hof k | Some d \<Rightarrow> Some (r\<lparr>duration := d\<rparr>)))"
  by (simp add: close_pass_def map_of_close_fold_hof)

lemma filter_take_single:
  assumes "filter P xs = [x]"
  shows "filter P (take n xs) = [x] \<or> filter P (take n xs) = []"
proof -
  have "filter P (take n xs) @ filter P (drop n xs) = filter P xs"
    by (metis append_take_drop_id filter_append)
  with assms have "filter P (take n xs) @ filter P (drop n xs) = [x]" by simp
  then show ?thesis by (cases "filter P (take n xs)") simp_all
qed

lemma entries_of_trim:
  assumes "distinct (map fst hof)" and "entries_of a hof = [x]"
  shows "entries_of a (trim_hall hof) = [x]
       \<or> (length hof > 100 \<and> entries_of a (trim_hall hof) = [])"
proof (cases "length hof > 100")
  case False
  with assms(2) show ?thesis by (simp add: trim_hall_def)
next
  case True
  have "filter (\<lambda>(k, e). ip e = a) (sort_key (\<lambda>(k, c). - duration c) hof)
      = sort_key (\<lambda>(k, c). - duration c) (filter (\<lambda>(k, e). ip e = a) hof)"
    by (rule filter_sort)
  with assms(2) have "filter (\<lambda>(k, e). ip e = a) (sort_key (\<lambda>(k, c). - duration c) hof) = [x]"
    by (simp add: entries_of_def)
  from filter_take_single [OF this, of 100] True show ?thesis
    by (simp add: entries_of_def trim_hall_eq [OF assms(1) True])
qed

lemma example_accept_conns:
  "p_conns (accept_pass no_geo_service 2000 example_window Map.empty [])
     = [(''203.0.113.5:40001'', example_conn ''203.0.113.5'' ''40001'' 0 Trapped\<lparr>started := 1000\<rparr>),
        (''203.0.113.9:40002'',
         example_conn ''203.0.113.9'' ''40002'' 0 Released\<lparr>fd := ''5'', started := 1001\<rparr>)]"
  by (simp add: example_window_def example_line_defs pass_defs Let_def example_conn_def)

lemma example_merge:
  "merge_hall example_window
     (p_conns (accept_pass no_geo_service 2000 example_window Map.empty [])) example_old_hall
     = [(''192.0.2.77:50000'', example_conn ''192.0.2.77'' ''50000'' 5000 Released),
        (''203.0.113.9:40002'',
         example_conn ''203.0.113.9'' ''40002'' 734.5 Released\<lparr>fd := ''5'', started := 1001\<rparr>)]"
  unfolding example_accept_conns
  by (simp add: merge_hall_def trim_hall_def dedup_hall_def dict_of_items_def ip_to_best_conn_def
      best_step_def close_pass_def close_step_def example_window_def example_line_defs
      example_old_hall_def example_conn_def conn_id_of_def Let_def)

lemma example_merge_same_key:
  "merge_hall example_window
     (p_conns (accept_pass no_geo_service 2000 example_window Map.empty [])) example_stored_same_key
     = [(''203.0.113.9:40002'',
         example_conn ''203.0.113.9'' ''40002'' 734.5 Released\<lparr>fd := ''5'', started := 1001\<rparr>)]"
  unfolding example_accept_conns
  by (simp add: merge_hall_def trim_hall_def dedup_hall_def dict_of_items_def ip_to_best_conn_def
      best_step_def close_pass_def close_step_def example_window_def example_line_defs
      example_stored_same_key_def example_conn_def conn_id_of_def Let_def)

lemma example_big_hall_set:
  "set example_big_hall =
     (\<lambda>n. (conn_id_of (example_ip n) ''22'', example_conn (example_ip n) ''22'' (real n) Released))
       ` {0..<150}"
  by (simp add: example_big_hall_def)

text \<open>Of 150 addresses the one with the shortest duration is not among the 100 kept.\<close>

lemma example_big_hall_drops_shortest:
  "entries_of (example_ip 0) (merge_hall [] [] example_big_hall) = []"
proof -
  let ?D = "dedup_hall example_big_hall"
  let ?K = "merge_hall [] [] example_big_hall"
  have dD: "distinct (map fst ?D)"
    by (rule dedup_hall_distinct [OF example_big_hall_distinct])
  have lD: "length ?D = 150"
    by (simp add: length_dedup_hall [OF example_big_hall_distinct] example_big_hall_origins)
  have sD: "set ?D \<subseteq> set example_big_hall"
    by (rule set_dedup_hall [OF example_big_hall_distinct])
  have K: "?K = take 100 (sort_key (\<lambda>(k, c). - duration c) ?D)"
    using trim_hall_eq [OF dD] lD by (simp add: merge_hall_def close_pass_def)
  have lK: "length ?K = 100" unfolding K using lD by simp
  have sK: "set ?K \<subseteq> set ?D" unfolding K by (metis set_take_subset set_sort)
  note top = top_100_sorted(2) [of 100 ?D, folded K]
  have "x \<notin> set ?K" if x: "ip (snd x) = example_ip 0" for x
  proof
    assume xK: "x \<in> set ?K"
    with sK sD have "x \<in> set example_big_hall" by blast
    then obtain n where n: "x = (conn_id_of (example_ip n) ''22'',
        example_conn (example_ip n) ''22'' (real n) Released)"
      unfolding example_big_hall_set by blast
    with x have "example_ip n = example_ip 0" by (simp add: example_conn_def)
    then have "n = 0" using example_ip_inj by (simp add: inj_def)
    with n have dx: "duration (snd x) = 0" by (simp add: example_conn_def)
    have "y \<in> set ?K" if y: "y \<in> set ?D" for y
    proof (rule ccontr)
      assume nK: "y \<notin> set ?K"
      with top xK y have "duration (snd y) \<le> duration (snd x)" by blast
      with dx have le: "duration (snd y) \<le> 0" by simp
      from y sD obtain m where m: "y = (conn_id_of (example_ip m) ''22'',
          example_conn (example_ip m) ''22'' (real m) Released)"
        unfolding example_big_hall_set by blast
      with le have "m = 0" by (simp add: example_conn_def)
      with m n \<open>n = 0\<close> have "y = x" by simp
      with xK nK show False by simp
    qed
    then have "set ?D \<subseteq> set ?K" by blast
    then have "card (set ?D) \<le> card (set ?K)" by (intro card_mono) simp_all
    moreover from dD have "distinct ?D" by (simp add: distinct_map)
    then have "card (set ?D) = length ?D" by (rule distinct_card)
    moreover have "card (set ?K) \<le> length ?K" by (rule card_length)
    ultimately show False using lD lK by simp
  qed
  then show ?thesis by (auto simp: entries_of_def filter_empty_conv)
qed

text \<open>
  C3, as stated, fails in two ways. A candidate replaces the stored entry of its
  connection id without comparison: the Hall of Fame holds 203.0.113.9:40002 with 5000
  seconds, the window closes that connection after 734.5 seconds, and the merge leaves
  734.5. And the truncation drops addresses: of 150 addresses the one with the shortest
  duration has an entry before the merge and none after it.
\<close>

theorem merge_replaces_and_truncates_counterexample:
  "example_stored_same_key
     = [(''203.0.113.9:40002'', example_conn ''203.0.113.9'' ''40002'' 5000 Released)]
   \<and> merge_hall example_window
        (p_conns (accept_pass no_geo_service 2000 example_window Map.empty [])) example_stored_same_key
     = [(''203.0.113.9:40002'',
         example_conn ''203.0.113.9'' ''40002'' 734.5 Released\<lparr>fd := ''5'', started := 1001\<rparr>)]
   \<and> (conn_id_of (example_ip 0) ''22'', example_conn (example_ip 0) ''22'' 0 Released)
        \<in> set example_big_hall
   \<and> entries_of (example_ip 0) (merge_hall [] [] example_big_hall) = []"
proof -
  have "(conn_id_of (example_ip 0) ''22'', example_conn (example_ip 0) ''22'' 0 Released)
        \<in> set example_big_hall"
    unfolding example_big_hall_set by (rule image_eqI [of _ _ 0]) simp_all
  with example_merge_same_key example_big_hall_drops_shortest show ?thesis
    by (simp add: example_stored_same_key_def)
qed

text \<open>
  C3, amended. Let the Hall of Fame have one entry per connection id. After the loop over
  the CLOSE lines it holds, under each connection id, the record of the window with the
  duration of its last CLOSE line when the window has both, and the stored entry
  otherwise: a candidate replaces the stored entry of its id without comparison. Take any
  entry it then holds. The deduplication step leaves exactly one entry of that address,
  one of those held, with the greatest duration among the entries of the address. After
  the merge this is the only entry of the address, or, when more than 100 addresses are
  left, the truncation may have dropped it and the address has no entry.
\<close>

theorem merge_keeps_longest_per_origin:
  assumes "distinct (map fst hof)"
    and "(k, c) \<in> set (snd (close_pass ls conns hof))"
  shows "(\<forall>key. map_of (snd (close_pass ls conns hof)) key =
            (case map_of conns key of
               None \<Rightarrow> map_of hof key
             | Some r \<Rightarrow>
                 (case last_close_time key ls of
                    None \<Rightarrow> map_of hof key
                  | Some d \<Rightarrow> Some (r\<lparr>duration := d\<rparr>))))
     \<and> (\<exists>k' c'. entries_of (ip c) (dedup_hall (snd (close_pass ls conns hof))) = [(k', c')]
           \<and> (k', c') \<in> set (snd (close_pass ls conns hof))
           \<and> duration c' = Max {duration e |k e. (k, e) \<in> set (snd (close_pass ls conns hof))
                                    \<and> ip e = ip c}
           \<and> (entries_of (ip c) (merge_hall ls conns hof) = [(k', c')]
                \<or> (length (dedup_hall (snd (close_pass ls conns hof))) > 100
                     \<and> entries_of (ip c) (merge_hall ls conns hof) = [])))"
proof -
  let ?H = "snd (close_pass ls conns hof)"
  have dH: "distinct (map fst ?H)" by (rule close_pass_hof_distinct [OF assms(1)])
  have 1: "\<forall>key. map_of ?H key =
            (case map_of conns key of
               None \<Rightarrow> map_of hof key
             | Some r \<Rightarrow>
                 (case last_close_time key ls of
                    None \<Rightarrow> map_of hof key
                  | Some d \<Rightarrow> Some (r\<lparr>duration := d\<rparr>)))"
    by (simp add: map_of_close_pass_hof)
  from dedup_hall_longest [OF dH assms(2)] obtain k' c' where
    b: "entries_of (ip c) (dedup_hall ?H) = [(k', c')]" "(k', c') \<in> set ?H"
       "duration c' = Max {duration e |k e. (k, e) \<in> set ?H \<and> ip e = ip c}"
    unfolding entries_of_def by blast
  have dD: "distinct (map fst (dedup_hall ?H))" by (rule dedup_hall_distinct [OF dH])
  from entries_of_trim [OF dD b(1)]
  have "entries_of (ip c) (merge_hall ls conns hof) = [(k', c')]
      \<or> (length (dedup_hall ?H) > 100 \<and> entries_of (ip c) (merge_hall ls conns hof) = [])"
    by (simp add: merge_hall_def)
  with 1 b show ?thesis by blast
qed

theorem merge_keeps_longest_per_origin_witness:
  "distinct (map fst example_old_hall)
   \<and> (''203.0.113.9:40002'',
        example_conn ''203.0.113.9'' ''40002'' 734.5 Released\<lparr>fd := ''5'', started := 1001\<rparr>)
       \<in> set (snd (close_pass example_window
            (p_conns (accept_pass no_geo_service 2000 example_window Map.empty [])) example_old_hall))
   \<and> length (entries_of ''203.0.113.9''
        (merge_hall example_window
           (p_conns (accept_pass no_geo_service 2000 example_window Map.empty [])) example_old_hall))
       = 1
   \<and> length (dedup_hall (snd (close_pass example_window
            (p_conns (accept_pass no_geo_service 2000 example_window Map.empty [])) example_old_hall)))
       \<le> 100"
proof -
  let ?conns = "p_conns (accept_pass no_geo_service 2000 example_window Map.empty [])"
  let ?r = "example_conn ''203.0.113.9'' ''40002'' 734.5 Released\<lparr>fd := ''5'', started := 1001\<rparr>"
  have d: "distinct (map fst example_old_hall)" by (simp add: example_old_hall_def)
  have H: "snd (close_pass example_window ?conns example_old_hall)
      = [(''192.0.2.77:50000'', example_conn ''192.0.2.77'' ''50000'' 5000 Released),
         (''203.0.113.9:40002'', ?r)]"
    unfolding example_accept_conns
    by (simp add: close_pass_def close_step_def example_window_def example_line_defs
        example_old_hall_def example_conn_def conn_id_of_def Let_def)
  have m: "(''203.0.113.9:40002'', ?r) \<in> set (snd (close_pass example_window ?conns example_old_hall))"
    by (simp add: H)
  have i: "ip ?r = ''203.0.113.9''" by (simp add: example_conn_def)
  have l: "length (dedup_hall (snd (close_pass example_window ?conns example_old_hall))) \<le> 100"
    using length_dedup_hall [of "snd (close_pass example_window ?conns example_old_hall)"]
    by (simp add: H card_insert_if)
  from merge_keeps_longest_per_origin [OF d m] l obtain k' c' where
    "entries_of (ip ?r) (merge_hall example_window ?conns example_old_hall) = [(k', c')]"
    by fastforce
  then have e: "length (entries_of ''203.0.113.9''
      (merge_hall example_window ?conns example_old_hall)) = 1"
    by (simp add: example_conn_def)
  from d m e l show ?thesis by blast
qed

section \<open>Loading and saving\<close>

lemma parse_save_raises:
  assumes "output_6h inp = Some ls"
  shows "parse_endlessh_logs (inp\<lparr>save_result := SaveRaises f\<rparr>) st
       = (parse_endlessh_logs (inp\<lparr>save_result := SaveOk\<rparr>) st)
           \<lparr>console := console st @ [ErrorSaving], hof_file := f\<rparr>"
  using assms
  by (simp add: parse_endlessh_logs_def Let_def save_hall_of_fame_def split: prod.splits)

text \<open>
  C8. Loading from a missing file or from a file on which reading raises leaves the engine
  as it was, with an empty Hall of Fame and a line on the console. A write that raises
  prints a line and leaves the Hall of Fame in memory as it is; the pass goes on and ends
  in the state it would reach after a successful write, except for the console and the
  file.
\<close>

theorem load_and_save_failures_not_fatal:
  "(hof_file st = NoFile \<longrightarrow>
      load_hall_of_fame st = st\<lparr>hall_of_fame := [], console := console st @ [NoExisting]\<rparr>)
   \<and> (hof_file st = Unreadable \<longrightarrow>
      load_hall_of_fame st = st\<lparr>hall_of_fame := [], console := console st @ [ErrorLoading]\<rparr>)
   \<and> hall_of_fame (save_hall_of_fame (SaveRaises f) st) = hall_of_fame st
   \<and> console (save_hall_of_fame (SaveRaises f) st) = console st @ [ErrorSaving]
   \<and> (output_6h inp = Some ls \<longrightarrow>
        parse_endlessh_logs (inp\<lparr>save_result := SaveRaises f\<rparr>) st
          = (parse_endlessh_logs (inp\<lparr>save_result := SaveOk\<rparr>) st)
              \<lparr>console := console st @ [ErrorSaving], hof_file := f\<rparr>)"
  by (simp add: load_hall_of_fame_def save_hall_of_fame_def parse_save_raises)

theorem load_and_save_failures_not_fatal_witness:
  "hof_file initial_engine = NoFile
   \<and> hall_of_fame (load_hall_of_fame (initial_engine\<lparr>hall_of_fame := example_hall\<rparr>)) = []
   \<and> hall_of_fame (load_hall_of_fame
        (initial_engine\<lparr>hall_of_fame := example_hall, hof_file := Unreadable\<rparr>)) = []
   \<and> output_6h example_failed_save = Some example_window
   \<and> hall_of_fame (parse_endlessh_logs example_failed_save initial_engine)
       = hall_of_fame (parse_endlessh_logs (example_failed_save\<lparr>save_result := SaveOk\<rparr>) initial_engine)
   \<and> console (parse_endlessh_logs example_failed_save initial_engine) = [ErrorSaving]"
proof -
  have f: "hof_file (initial_engine\<lparr>hall_of_fame := example_hall\<rparr>) = NoFile"
    "hof_file (initial_engine\<lparr>hall_of_fame := example_hall, hof_file := Unreadable\<rparr>) = Unreadable"
    "hof_file initial_engine = NoFile" "console initial_engine = []"
    by (simp_all add: initial_engine_def)
  have o: "output_6h example_failed_save = Some example_window"
    by (simp add: example_failed_save_def)
  have e: "example_failed_save\<lparr>save_result := SaveRaises NoFile\<rparr> = example_failed_save"
    by (simp add: example_failed_save_def)
  note t1 = load_and_save_failures_not_fatal [of "initial_engine\<lparr>hall_of_fame := example_hall\<rparr>"
      NoFile example_failed_save example_window]
  note t2 = load_and_save_failures_not_fatal
      [of "initial_engine\<lparr>hall_of_fame := example_hall, hof_file := Unreadable\<rparr>"
      NoFile example_failed_save example_window]
  note t3 = load_and_save_failures_not_fatal [of initial_engine NoFile example_failed_save example_window]
  from t1 f(1) have 1: "hall_of_fame (load_hall_of_fame (initial_engine\<lparr>hall_of_fame := example_hall\<rparr>)) = []"
    by simp
  from t2 f(2) have 2: "hall_of_fame (load_hall_of_fame
        (initial_engine\<lparr>hall_of_fame := example_hall, hof_file := Unreadable\<rparr>)) = []"
    by simp
  from t3 o have 3: "parse_endlessh_logs example_failed_save initial_engine
          = (parse_endlessh_logs (example_failed_save\<lparr>save_result := SaveOk\<rparr>) initial_engine)
              \<lparr>console := console initial_engine @ [ErrorSaving], hof_file := NoFile\<rparr>"
    unfolding e by blast
  have 4: "hall_of_fame (parse_endlessh_logs example_failed_save initial_engine)
       = hall_of_fame (parse_endlessh_logs (example_failed_save\<lparr>save_result := SaveOk\<rparr>) initial_engine)"
    by (subst 3) simp
  have 5: "console (parse_endlessh_logs example_failed_save initial_engine) = [ErrorSaving]"
    by (subst 3) (simp add: f)
  from f(3) 1 2 o 4 5 show ?thesis by blast
qed

section \<open>Failed lookups\<close>

lemma get_geoip_data_failing:
  assumes "locs a = None" and "failing (api (length reqs) a)"
  shows "get_geoip_data api a (locs, reqs) = (fallback_geo, locs, reqs @ [a])"
  using assms by (auto simp: get_geoip_data_def failing_def split: api_result.splits)

lemma get_geoip_data_cache:
  "fst (snd (get_geoip_data api a (locs, reqs))) = locs
   \<or> (\<exists>d. locs a = None \<and> api (length reqs) a = ApiData d \<and> api_status d = Some ''success''
         \<and> fst (snd (get_geoip_data api a (locs, reqs))) = locs(a \<mapsto> geo_of_data d))"
  by (auto simp: get_geoip_data_def split: option.splits api_result.splits)

lemma lookup_if_missing_failing:
  assumes "locs a = None" and "\<forall>n. failing (api n a)"
  shows "lookup_if_missing api a (locs, reqs) = (locs, reqs @ [a])"
  using assms get_geoip_data_failing [of locs a api reqs]
  by (simp add: lookup_if_missing_def domIff)

lemma lookup_if_missing_other:
  assumes "locs a = None" and "b \<noteq> a"
  shows "fst (lookup_if_missing api b (locs, reqs)) a = None
       \<and> count_list (snd (lookup_if_missing api b (locs, reqs))) a = count_list reqs a"
  using assms
  by (auto simp: lookup_if_missing_def get_geoip_data_def split: option.splits api_result.splits)

lemma strip_quotes_Unknown: "strip_quotes ''Unknown'' = ''Unknown''"
  by (simp add: strip_quotes_def)

lemma new_conn_no_geo:
  "country (new_conn now cp l m None) = ''Unknown'' \<and> city (new_conn now cp l m None) = ''Unknown''
   \<and> country_code (new_conn now cp l m None) = ''XX''"
  by (simp add: new_conn_def get_default_def strip_quotes_Unknown)

lemma accepts_of_Cons:
  "accepts_of a (l # ls) = (if map_option a_ip (accept_m l) = Some a then l # accepts_of a ls else accepts_of a ls)"
  by (simp add: accepts_of_def)

text \<open>The loop over the ACCEPT lines, seen from an address whose every lookup fails.\<close>

lemma accept_fold_failing:
  assumes "\<forall>n. failing (api n a)" and "p_locs s a = None"
  shows "p_locs (fold (accept_step api now cp) xs s) a = None
     \<and> count_list (p_reqs (fold (accept_step api now cp) xs s)) a
         = count_list (p_reqs s) a + length (accepts_of a xs)
     \<and> (\<forall>e \<in> set (p_conns (fold (accept_step api now cp) xs s)).
           ip (snd e) = a \<longrightarrow>
             e \<in> set (p_conns s)
             \<or> (country (snd e) = ''Unknown'' \<and> city (snd e) = ''Unknown''
                 \<and> country_code (snd e) = ''XX''))"
  using assms(2)
proof (induction xs arbitrary: s)
  case Nil
  then show ?case by (simp add: accepts_of_def)
next
  case (Cons l xs)
  let ?s1 = "accept_step api now cp l s"
  have step: "p_locs ?s1 a = None
      \<and> count_list (p_reqs ?s1) a
          = count_list (p_reqs s) a + (if map_option a_ip (accept_m l) = Some a then 1 else 0)
      \<and> (\<forall>e \<in> set (p_conns ?s1). ip (snd e) = a \<longrightarrow> e \<in> set (p_conns s)
             \<or> (country (snd e) = ''Unknown'' \<and> city (snd e) = ''Unknown''
                 \<and> country_code (snd e) = ''XX''))"
  proof (cases "accept_m l")
    case None
    with Cons.prems show ?thesis by (simp add: accept_step_None)
  next
    case (Some m)
    show ?thesis
    proof (cases "a_ip m = a")
      case True
      from lookup_if_missing_failing [of "p_locs s" a api "p_reqs s"] Cons.prems assms(1)
      have lk: "lookup_if_missing api a (p_locs s, p_reqs s) = (p_locs s, p_reqs s @ [a])"
        by simp
      have eq: "?s1 = \<lparr>p_conns = dict_set (p_conns s) (conn_id_of (a_ip m) (a_port m))
                         (new_conn now cp l m None),
               p_per_ip = dict_set (p_per_ip s) (a_ip m)
                            (get_default (map_of (p_per_ip s) (a_ip m)) 0 + 1),
               p_locs = p_locs s, p_reqs = p_reqs s @ [a]\<rparr>"
        using Cons.prems by (simp add: accept_step_def Some Let_def lk True)
      have "e \<in> set (p_conns s) \<or> (country (snd e) = ''Unknown'' \<and> city (snd e) = ''Unknown''
                 \<and> country_code (snd e) = ''XX'')"
        if "e \<in> set (p_conns ?s1)" for e
      proof -
        from that set_dict_set_subset
        have "e = (conn_id_of (a_ip m) (a_port m), new_conn now cp l m None) \<or> e \<in> set (p_conns s)"
          unfolding eq by fastforce
        then show ?thesis using new_conn_no_geo [of now cp l m] by auto
      qed
      then show ?thesis using Cons.prems by (simp add: eq Some True)
    next
      case False
      let ?g = "lookup_if_missing api (a_ip m) (p_locs s, p_reqs s)"
      from lookup_if_missing_other [of "p_locs s" a "a_ip m" api "p_reqs s"] Cons.prems False
      have lk: "fst ?g a = None" "count_list (snd ?g) a = count_list (p_reqs s) a" by simp_all
      have eq: "?s1 = \<lparr>p_conns = dict_set (p_conns s) (conn_id_of (a_ip m) (a_port m))
                         (new_conn now cp l m (fst ?g (a_ip m))),
               p_per_ip = dict_set (p_per_ip s) (a_ip m)
                            (get_default (map_of (p_per_ip s) (a_ip m)) 0 + 1),
               p_locs = fst ?g, p_reqs = snd ?g\<rparr>"
        by (simp add: accept_step_def Some Let_def)
      have "e \<in> set (p_conns s)" if "e \<in> set (p_conns ?s1)" "ip (snd e) = a" for e
      proof -
        from that(1) set_dict_set_subset
        have "e = (conn_id_of (a_ip m) (a_port m), new_conn now cp l m (fst ?g (a_ip m)))
              \<or> e \<in> set (p_conns s)"
          unfolding eq by fastforce
        moreover have "ip (new_conn now cp l m (fst ?g (a_ip m))) \<noteq> a"
          using False by (simp add: new_conn_def)
        ultimately show ?thesis using that(2) by auto
      qed
      then show ?thesis using lk False by (auto simp: eq Some)
    qed
  qed
  from step have l1: "p_locs ?s1 a = None" by blast
  note ih = Cons.IH [OF l1]
  have "\<forall>e \<in> set (p_conns (fold (accept_step api now cp) xs ?s1)).
           ip (snd e) = a \<longrightarrow>
             e \<in> set (p_conns s)
             \<or> (country (snd e) = ''Unknown'' \<and> city (snd e) = ''Unknown''
                 \<and> country_code (snd e) = ''XX'')"
    using ih step by blast
  moreover have "count_list (p_reqs (fold (accept_step api now cp) xs ?s1)) a
         = count_list (p_reqs s) a + length (accepts_of a (l # xs))"
    using ih step by (simp add: accepts_of_Cons)
  ultimately show ?case using ih by simp
qed

lemma locs_after_parse:
  "ip_locations (parse_endlessh_logs inp st) =
     (case output_6h inp of
        None \<Rightarrow> ip_locations st
      | Some ls \<Rightarrow> p_locs (accept_pass (geo_api inp) (clock inp) ls (ip_locations st) (requests st)))"
  by (simp add: parse_endlessh_logs_def Let_def save_hall_of_fame_def
      split: option.splits prod.splits save_outcome.splits)

lemma requests_after_parse:
  "requests (parse_endlessh_logs inp st) =
     (case output_6h inp of
        None \<Rightarrow> requests st
      | Some ls \<Rightarrow> p_reqs (accept_pass (geo_api inp) (clock inp) ls (ip_locations st) (requests st)))"
  by (simp add: parse_endlessh_logs_def Let_def save_hall_of_fame_def
      split: option.splits prod.splits save_outcome.splits)

lemma lookup_if_missing_cache:
  assumes "fst (lookup_if_missing api a (locs, reqs)) b = Some g"
  shows "locs b = Some g
       \<or> (\<exists>n d. api n b = ApiData d \<and> api_status d = Some ''success'' \<and> g = geo_of_data d)"
proof (cases "a \<in> dom locs")
  case True
  with assms show ?thesis by (simp add: lookup_if_missing_def)
next
  case False
  with assms have g: "fst (snd (get_geoip_data api a (locs, reqs))) b = Some g"
    by (simp add: lookup_if_missing_def)
  from get_geoip_data_cache [of api a locs reqs] show ?thesis
  proof
    assume "fst (snd (get_geoip_data api a (locs, reqs))) = locs"
    with g show ?thesis by simp
  next
    assume "\<exists>d. locs a = None \<and> api (length reqs) a = ApiData d \<and> api_status d = Some ''success''
         \<and> fst (snd (get_geoip_data api a (locs, reqs))) = locs(a \<mapsto> geo_of_data d)"
    then obtain d where d: "api (length reqs) a = ApiData d" "api_status d = Some ''success''"
        "fst (snd (get_geoip_data api a (locs, reqs))) = locs(a \<mapsto> geo_of_data d)" by blast
    show ?thesis
    proof (cases "b = a")
      case True
      with g d(3) have "g = geo_of_data d" by simp
      with d(1,2) True show ?thesis by blast
    next
      case False
      with g d(3) show ?thesis by simp
    qed
  qed
qed

lemma accept_step_locs:
  "p_locs (accept_step api now cp l s) =
     (case accept_m l of
        None \<Rightarrow> p_locs s
      | Some m \<Rightarrow> fst (lookup_if_missing api (a_ip m) (p_locs s, p_reqs s)))"
  by (simp add: accept_step_def Let_def split: option.splits)

lemma accept_fold_cache:
  assumes "p_locs (fold (accept_step api now cp) xs s) b = Some g"
  shows "p_locs s b = Some g
       \<or> (\<exists>n d. api n b = ApiData d \<and> api_status d = Some ''success'' \<and> g = geo_of_data d)"
  using assms
proof (induction xs arbitrary: s)
  case Nil
  then show ?case by simp
next
  case (Cons l xs)
  from Cons.IH [of "accept_step api now cp l s"] Cons.prems
  consider "p_locs (accept_step api now cp l s) b = Some g"
    | "\<exists>n d. api n b = ApiData d \<and> api_status d = Some ''success'' \<and> g = geo_of_data d"
    by auto
  then show ?case
  proof cases
    case 1
    show ?thesis
    proof (cases "accept_m l")
      case None
      with 1 show ?thesis by (simp add: accept_step_locs)
    next
      case (Some m)
      with 1 have "fst (lookup_if_missing api (a_ip m) (p_locs s, p_reqs s)) b = Some g"
        by (simp add: accept_step_locs)
      then show ?thesis by (rule lookup_if_missing_cache)
    qed
  next
    case 2
    then show ?thesis by blast
  qed
qed

lemma locs_failing_passes:
  assumes "\<forall>inp \<in> set inps. \<forall>n. failing (geo_api inp n a)" and "ip_locations st a = None"
  shows "ip_locations (fold parse_endlessh_logs inps st) a = None"
  using assms
proof (induction inps arbitrary: st)
  case Nil
  then show ?case by simp
next
  case (Cons inp inps)
  have "ip_locations (parse_endlessh_logs inp st) a = None"
  proof (cases "output_6h inp")
    case None
    with Cons.prems show ?thesis by (simp add: locs_after_parse)
  next
    case (Some ls)
    from Cons.prems(1) have f: "\<forall>n. failing (geo_api inp n a)" by simp
    from accept_fold_failing [where api = "geo_api inp" and a = a and now = "clock inp"
        and cp = "closed_ports_of ls" and xs = ls
        and s = "\<lparr>p_conns = [], p_per_ip = [], p_locs = ip_locations st, p_reqs = requests st\<rparr>"]
      f Cons.prems(2)
    show ?thesis by (simp add: locs_after_parse Some accept_pass_def)
  qed
  with Cons.IH [of "parse_endlessh_logs inp st"] Cons.prems(1) show ?case by simp
qed

text \<open>
  C9. Let every request for the address \<^verbatim>\<open>a\<close> fail (the call raises or the answer is not
  a success), and let \<^verbatim>\<open>a\<close> not be in the cache. Then \<^verbatim>\<open>get_geoip_data\<close> returns the
  placeholder, sends one request and leaves the cache as it is. After a pass the address
  is still not in the cache, one request was sent for each of its ACCEPT lines, and every
  record of the address in the working set carries the default location values; over
  any number of such passes the address stays out of the cache, so each pass asks again.
  An entry of the cache after a pass was there before or is the answer to a successful
  request.
\<close>

theorem failed_lookup_not_cached_and_retried:
  assumes "\<forall>n. failing (geo_api inp n a)" and "ip_locations st a = None"
    and "output_6h inp = Some ls"
  shows "get_geoip_data (geo_api inp) a (ip_locations st, requests st)
           = (fallback_geo, ip_locations st, requests st @ [a])
     \<and> ip_locations (parse_endlessh_logs inp st) a = None
     \<and> count_list (requests (parse_endlessh_logs inp st)) a
         = count_list (requests st) a + length (accepts_of a ls)
     \<and> (\<forall>(k, c) \<in> set (working_set (geo_api inp) (clock inp) ls (ip_locations st) (requests st)).
           ip c = a \<longrightarrow> country c = ''Unknown'' \<and> city c = ''Unknown'' \<and> country_code c = ''XX'')
     \<and> ((\<forall>i \<in> set inps. \<forall>n. failing (geo_api i n a))
           \<longrightarrow> ip_locations (fold parse_endlessh_logs inps st) a = None)
     \<and> (\<forall>b g. ip_locations (parse_endlessh_logs inp st) b = Some g \<longrightarrow>
           ip_locations st b = Some g
           \<or> (\<exists>n d. geo_api inp n b = ApiData d \<and> api_status d = Some ''success''
                 \<and> g = geo_of_data d))"
proof -
  let ?s0 = "\<lparr>p_conns = [], p_per_ip = [], p_locs = ip_locations st, p_reqs = requests st\<rparr>"
  let ?p = "accept_pass (geo_api inp) (clock inp) ls (ip_locations st) (requests st)"
  have 1: "get_geoip_data (geo_api inp) a (ip_locations st, requests st)
           = (fallback_geo, ip_locations st, requests st @ [a])"
    using assms(1,2) by (simp add: get_geoip_data_failing)
  from accept_fold_failing [where api = "geo_api inp" and a = a and now = "clock inp"
        and cp = "closed_ports_of ls" and xs = ls and s = ?s0] assms(1,2)
  have f: "p_locs ?p a = None"
      "count_list (p_reqs ?p) a = count_list (requests st) a + length (accepts_of a ls)"
      "\<forall>e \<in> set (p_conns ?p). ip (snd e) = a \<longrightarrow>
          country (snd e) = ''Unknown'' \<and> city (snd e) = ''Unknown'' \<and> country_code (snd e) = ''XX''"
    by (simp_all add: accept_pass_def)
  have 2: "ip_locations (parse_endlessh_logs inp st) a = None"
    by (simp add: locs_after_parse assms(3) f(1))
  have 3: "count_list (requests (parse_endlessh_logs inp st)) a
         = count_list (requests st) a + length (accepts_of a ls)"
    by (simp add: requests_after_parse assms(3) f(2))
  have 4: "\<forall>(k, c) \<in> set (working_set (geo_api inp) (clock inp) ls (ip_locations st) (requests st)).
           ip c = a \<longrightarrow> country c = ''Unknown'' \<and> city c = ''Unknown'' \<and> country_code c = ''XX''"
  proof (clarify)
    fix k c assume kc: "(k, c) \<in> set (working_set (geo_api inp) (clock inp) ls (ip_locations st) (requests st))"
      and "a = ip c"
    from recompute_entries [OF kc [unfolded working_set_def]] obtain e1 d1 where
      e1: "e1 \<in> set (fst (close_pass ls (p_conns ?p) []))" "snd (k, c) = (snd e1)\<lparr>duration := d1\<rparr>"
      by blast
    from close_fold_entries [OF e1(1) [unfolded close_pass_def]] obtain e0 d0 where
      e0: "e0 \<in> set (p_conns ?p)" "snd e1 = (snd e0)\<lparr>duration := d0\<rparr>" by auto
    from e1(2) e0(2) have c: "c = (snd e0)\<lparr>duration := d1\<rparr>" by simp
    with \<open>a = ip c\<close> have "ip (snd e0) = a" by simp
    with f(3) e0(1) have "country (snd e0) = ''Unknown'' \<and> city (snd e0) = ''Unknown''
        \<and> country_code (snd e0) = ''XX''" by blast
    with c show "country c = ''Unknown'' \<and> city c = ''Unknown'' \<and> country_code c = ''XX''" by simp
  qed
  have 5: "(\<forall>i \<in> set inps. \<forall>n. failing (geo_api i n a))
           \<longrightarrow> ip_locations (fold parse_endlessh_logs inps st) a = None"
    using locs_failing_passes [of inps a st] assms(2) by blast
  have 6: "\<forall>b g. ip_locations (parse_endlessh_logs inp st) b = Some g \<longrightarrow>
           ip_locations st b = Some g
           \<or> (\<exists>n d. geo_api inp n b = ApiData d \<and> api_status d = Some ''success''
                 \<and> g = geo_of_data d)"
  proof (intro allI impI)
    fix b g assume "ip_locations (parse_endlessh_logs inp st) b = Some g"
    then have "p_locs (fold (accept_step (geo_api inp) (clock inp) (closed_ports_of ls)) ls ?s0) b = Some g"
      by (simp add: locs_after_parse assms(3) accept_pass_def)
    from accept_fold_cache [OF this]
    show "ip_locations st b = Some g
           \<or> (\<exists>n d. geo_api inp n b = ApiData d \<and> api_status d = Some ''success''
                 \<and> g = geo_of_data d)" by simp
  qed
  from 1 2 3 4 5 6 show ?thesis by blast
qed

theorem failed_lookup_not_cached_and_retried_witness:
  "(\<forall>n. failing (geo_api example_pass n ''203.0.113.5''))
   \<and> ip_locations initial_engine ''203.0.113.5'' = None
   \<and> output_6h example_pass = Some example_window
   \<and> ip_locations (parse_endlessh_logs example_pass initial_engine) ''203.0.113.5'' = None
   \<and> count_list (requests (parse_endlessh_logs example_pass initial_engine)) ''203.0.113.5'' = 1
   \<and> ip_locations (fold parse_endlessh_logs [example_pass, example_pass] initial_engine)
        ''203.0.113.5'' = None"
proof -
  have f: "\<forall>n. failing (geo_api example_pass n ''203.0.113.5'')"
    by (simp add: example_pass_def no_geo_service_def failing_def)
  have c: "ip_locations initial_engine ''203.0.113.5'' = None" by (simp add: initial_engine_def)
  have o: "output_6h example_pass = Some example_window" by (simp add: example_pass_def)
  have r: "count_list (requests initial_engine) ''203.0.113.5'' = 0" by (simp add: initial_engine_def)
  have n: "length (accepts_of ''203.0.113.5'' example_window) = 1"
    by (simp add: accepts_of_def example_window_def accept_line_def close_line_def)
  have a: "\<forall>i \<in> set [example_pass, example_pass]. \<forall>n. failing (geo_api i n ''203.0.113.5'')"
    using f by simp
  note t = failed_lookup_not_cached_and_retried [OF f c o, of "[example_pass, example_pass]"]
  from t have 2: "ip_locations (parse_endlessh_logs example_pass initial_engine) ''203.0.113.5'' = None"
    by blast
  from t have "count_list (requests (parse_endlessh_logs example_pass initial_engine)) ''203.0.113.5''
     = count_list (requests initial_engine) ''203.0.113.5'' + length (accepts_of ''203.0.113.5'' example_window)"
    by blast
  then have 3: "count_list (requests (parse_endlessh_logs example_pass initial_engine)) ''203.0.113.5'' = 1"
    by (simp only: r n)
  from t a have 5: "ip_locations (fold parse_endlessh_logs [example_pass, example_pass] initial_engine)
        ''203.0.113.5'' = None" by blast
  from f c o 2 3 5 show ?thesis by blast
qed

section \<open>The rolled-up series\<close>

lemma accept_step_per_ip:
  "p_per_ip (accept_step api now cp l s) =
     (case accept_m l of
        None \<Rightarrow> p_per_ip s
      | Some m \<Rightarrow> dict_set (p_per_ip s) (a_ip m) (get_default (map_of (p_per_ip s) (a_ip m)) 0 + 1))"
  by (simp add: accept_step_def Let_def split: option.splits)

lemma open_origins_Cons:
  "open_origins (l # ls) = (case accept_m l of None \<Rightarrow> open_origins ls | Some m \<Rightarrow> insert (a_ip m) (open_origins ls))"
  by (simp add: open_origins_def List.map_filter_def split: option.splits)

lemma open_origins_iff: "a \<in> open_origins ls \<longleftrightarrow> (\<exists>l m. l \<in> set ls \<and> accept_m l = Some m \<and> a_ip m = a)"
  by (force simp: open_origins_def List.map_filter_def)

lemma accepts_of_empty_iff: "accepts_of a ls = [] \<longleftrightarrow> a \<notin> open_origins ls"
  by (auto simp: accepts_of_def open_origins_iff filter_empty_conv)

lemma accept_fold_per_ip_keys:
  "fst ` set (p_per_ip (fold (accept_step api now cp) xs s)) = fst ` set (p_per_ip s) \<union> open_origins xs"
proof (induction xs arbitrary: s)
  case Nil
  then show ?case by (simp add: open_origins_def List.map_filter_def)
next
  case (Cons l xs)
  show ?case
    by (cases "accept_m l") (auto simp: Cons.IH accept_step_per_ip open_origins_Cons dict_set_keys)
qed

lemma accept_fold_per_ip_distinct:
  "distinct (map fst (p_per_ip s)) \<Longrightarrow> distinct (map fst (p_per_ip (fold (accept_step api now cp) xs s)))"
proof (induction xs arbitrary: s)
  case Nil
  then show ?case by simp
next
  case (Cons l xs)
  have "distinct (map fst (p_per_ip (accept_step api now cp l s)))"
    using Cons.prems by (cases "accept_m l") (simp_all add: accept_step_per_ip distinct_dict_set)
  from Cons.IH [OF this] show ?case by simp
qed

lemma accept_fold_per_ip_count:
  "map_of (p_per_ip (fold (accept_step api now cp) xs s)) a =
     (if accepts_of a xs = [] then map_of (p_per_ip s) a
      else Some (get_default (map_of (p_per_ip s) a) 0 + length (accepts_of a xs)))"
proof (induction xs arbitrary: s)
  case Nil
  then show ?case by (simp add: accepts_of_def)
next
  case (Cons l xs)
  show ?case
  proof (cases "accept_m l")
    case None
    then show ?thesis by (simp add: Cons.IH accept_step_per_ip accepts_of_Cons)
  next
    case (Some m)
    show ?thesis
      by (cases "a_ip m = a")
         (auto simp: Cons.IH accept_step_per_ip accepts_of_Cons Some map_of_dict_set get_default_def)
  qed
qed

lemma per_ip_after_parse:
  "connections_per_ip (parse_endlessh_logs inp st) =
     (case output_6h inp of
        None \<Rightarrow> connections_per_ip st
      | Some ls \<Rightarrow> p_per_ip (accept_pass (geo_api inp) (clock inp) ls (ip_locations st) (requests st)))"
  by (simp add: parse_endlessh_logs_def Let_def save_hall_of_fame_def
      split: option.splits prod.splits save_outcome.splits)

lemma display_after_parse:
  "output_6h inp = Some ls \<Longrightarrow>
   individual_connections (parse_endlessh_logs inp st) =
     display_connections (clock inp)
       (fst (close_pass ls (p_conns (accept_pass (geo_api inp) (clock inp) ls (ip_locations st) (requests st)))
              (hall_of_fame st)))
       (hall_of_fame (parse_endlessh_logs inp st))"
  by (simp add: parse_endlessh_logs_def Let_def save_hall_of_fame_def
      split: option.splits prod.splits save_outcome.splits)

text \<open>
  The displayed connections after a pass: the trapped records of the working set, updated
  with the Hall of Fame.
\<close>

lemma individual_connections_after_parse:
  assumes "output_6h inp = Some ls"
  shows "individual_connections (parse_endlessh_logs inp st) =
     dict_update
       (filter (\<lambda>(k, c). status c = Trapped)
          (working_set (geo_api inp) (clock inp) ls (ip_locations st) (requests st)))
       (hall_of_fame (parse_endlessh_logs inp st))"
proof -
  let ?c = "p_conns (accept_pass (geo_api inp) (clock inp) ls (ip_locations st) (requests st))"
  have "recompute_trapped (clock inp) (recompute_trapped (clock inp) (fst (close_pass ls ?c [])))
      = recompute_trapped (clock inp) (fst (close_pass ls ?c (hall_of_fame st)))"
    by (simp add: recompute_trapped_def comp_def case_prod_beta live_def
        close_pass_fst_hof [of ls ?c "[]" "hall_of_fame st"])
  moreover have "recompute_trapped (clock inp) (recompute_trapped (clock inp) (fst (close_pass ls ?c [])))
      = recompute_trapped (clock inp) (fst (close_pass ls ?c []))"
    by (simp add: recompute_trapped_def comp_def case_prod_beta live_def)
  ultimately show ?thesis
    by (simp add: display_after_parse [OF assms] display_connections_def trapped_connections_def
        working_set_def)
qed

lemma max_avg_after_parse:
  "output_6h inp = Some ls \<Longrightarrow>
   max_trap_duration (parse_endlessh_logs inp st) =
     (if individual_connections (parse_endlessh_logs inp st) \<noteq> []
      then Max (set (map (\<lambda>(k, c). duration c) (individual_connections (parse_endlessh_logs inp st))))
      else 0)
   \<and> avg_trap_duration (parse_endlessh_logs inp st) =
     (if individual_connections (parse_endlessh_logs inp st) \<noteq> []
      then sum_list (map (\<lambda>(k, c). duration c) (individual_connections (parse_endlessh_logs inp st)))
           / real (length (individual_connections (parse_endlessh_logs inp st)))
      else 0)"
  by (simp add: parse_endlessh_logs_def Let_def save_hall_of_fame_def
      split: option.splits prod.splits save_outcome.splits)

lemma fold_dict_set_lookup:
  "distinct (map fst e) \<Longrightarrow>
   map_of (fold (\<lambda>(k, v) d. dict_set d k v) e d) k =
     (case map_of e k of Some v \<Rightarrow> Some v | None \<Rightarrow> map_of d k)"
proof (induction e arbitrary: d)
  case Nil
  then show ?case by simp
next
  case (Cons x e)
  obtain k' v' where x: "x = (k', v')" by (cases x)
  from Cons.prems have d: "distinct (map fst e)" and n: "k' \<notin> fst ` set e" by (simp_all add: x)
  from n have none: "map_of e k' = None" by (simp add: map_of_eq_None_iff)
  have ih: "map_of (fold (\<lambda>(k, v) d. dict_set d k v) e (dict_set d k' v')) k =
     (case map_of e k of Some v \<Rightarrow> Some v | None \<Rightarrow> map_of (dict_set d k' v') k)"
    by (rule Cons.IH [OF d])
  show ?case
  proof (cases "k = k'")
    case True
    with ih none show ?thesis by (simp add: x map_of_dict_set)
  next
    case False
    with ih show ?thesis by (simp add: x map_of_dict_set split: option.splits)
  qed
qed

lemma fold_dict_set_distinct:
  "distinct (map fst d) \<Longrightarrow> distinct (map fst (fold (\<lambda>(k, v) d. dict_set d k v) e d))"
proof (induction e arbitrary: d)
  case Nil
  then show ?case by simp
next
  case (Cons x e)
  obtain k' v' where x: "x = (k', v')" by (cases x)
  from Cons.IH [of "dict_set d k' v'"] Cons.prems show ?case
    by (simp add: x distinct_dict_set)
qed

lemma dict_update_contains:
  assumes "distinct (map fst d)" and "distinct (map fst e)" and "x \<in> set e"
  shows "x \<in> set (dict_update d e)"
proof -
  obtain k v where x: "x = (k, v)" by (cases x)
  from assms(2,3) have "map_of e k = Some v" by (simp add: x)
  then have "map_of (dict_update d e) k = Some v"
    by (simp add: dict_update_def fold_dict_set_lookup [OF assms(2)])
  then show ?thesis unfolding x by (rule map_of_SomeD)
qed

lemma dict_of_items_keys_distinct: "distinct (map fst (dict_of_items kvs))"
  unfolding dict_of_items_def by (rule fold_dict_set_distinct) simp

lemma trim_hall_distinct: "distinct (map fst hof) \<Longrightarrow> distinct (map fst (trim_hall hof))"
  by (simp add: trim_hall_def dict_of_items_keys_distinct)

lemma merge_hall_distinct:
  "distinct (map fst hof) \<Longrightarrow> distinct (map fst (merge_hall ls conns hof))"
  unfolding merge_hall_def
  by (intro trim_hall_distinct dedup_hall_distinct close_pass_hof_distinct)

lemma trapped_connections_distinct:
  "distinct (map fst conns) \<Longrightarrow> distinct (map fst (trapped_connections now conns))"
proof -
  assume d: "distinct (map fst conns)"
  have "map fst (recompute_trapped now conns) = map fst conns"
    by (simp add: recompute_trapped_def comp_def case_prod_beta)
  with d have "distinct (map fst (recompute_trapped now conns))" by simp
  then show ?thesis unfolding trapped_connections_def by (rule distinct_map_filter)
qed

lemma connection_infos_not_rollup: "filter is_rollup (connection_infos idx g xs) = []"
  by (induction xs arbitrary: idx g) (simp_all add: Let_def)

lemma connection_infos_entry:
  assumes "item \<in> set xs"
  shows "\<exists>i. Connection_info i \<in> set (connection_infos idx g xs)
           \<and> ci_ip i = ip (snd item) \<and> ci_port i = port (snd item)
           \<and> ci_value i = duration (snd item)"
  using assms
proof (induction xs arbitrary: idx g)
  case Nil
  then show ?case by simp
next
  case (Cons x xs)
  show ?case
  proof (cases "item = x")
    case True
    show ?thesis
      by (intro exI [of _ "\<lparr>ci_fd = fd (snd x), ci_ip = ip (snd x), ci_port = port (snd x),
            ci_country = country (snd x), ci_city = city (snd x), ci_status = status (snd x),
            ci_started = started (snd x), ci_sort_order = idx,
            ci_ip_group = get_default (map_of (ip_group_map (group_step (ip (snd x)) g)) (ip (snd x))) 0,
            ci_value = duration (snd x)\<rparr>"]) (simp add: True Let_def)
  next
    case False
    with Cons.prems have "item \<in> set xs" by simp
    from Cons.IH [OF this, of "idx + 1" "group_step (ip (snd x)) g"] obtain i where
      "Connection_info i \<in> set (connection_infos (idx + 1) (group_step (ip (snd x)) g) xs)"
      "ci_ip i = ip (snd item)" "ci_port i = port (snd item)" "ci_value i = duration (snd item)"
      by blast
    then show ?thesis by (intro exI [of _ i]) (simp add: Let_def)
  qed
qed

lemma per_ip_sample_rollup: "is_rollup (per_ip_sample locs d e)"
  by (simp add: per_ip_sample_def Let_def)

lemma rollup_of_render:
  "filter is_rollup (render st) =
     map (per_ip_sample (ip_locations st) (ip_durations_of (individual_connections st)))
       (connections_per_ip st)
     @ [Unique_ips (length (connections_per_ip st))]
     @ map (\<lambda>e. Connections_per_country (strip_quotes (fst e)) (snd e))
         (countries_of (ip_locations st) (connections_per_ip st))"
  by (simp add: render_def connection_infos_not_rollup filter_map comp_def per_ip_sample_rollup)

lemma per_ip_in_render:
  assumes "Connections_per_ip p \<in> set (render st)"
  shows "pi_ip p \<in> fst ` set (connections_per_ip st)"
proof -
  from assms have "Connections_per_ip p \<in> set (filter is_rollup (render st))" by simp
  then have "Connections_per_ip p
      \<in> set (map (per_ip_sample (ip_locations st) (ip_durations_of (individual_connections st)))
          (connections_per_ip st))"
    unfolding rollup_of_render by auto
  then obtain e where "e \<in> set (connections_per_ip st)"
      "Connections_per_ip p = per_ip_sample (ip_locations st) (ip_durations_of (individual_connections st)) e"
    by auto
  then show ?thesis by (auto simp: per_ip_sample_def Let_def)
qed

lemma conn_info_in_render:
  assumes "item \<in> set (individual_connections st)"
  shows "\<exists>i. Connection_info i \<in> set (render st)
           \<and> ci_ip i = ip (snd item) \<and> ci_port i = port (snd item)
           \<and> ci_value i = duration (snd item)"
proof -
  from assms have "item \<in> set (sort_key sort_key_conn (individual_connections st))" by simp
  from connection_infos_entry [OF this, of 0 "\<lparr>ip_group_map = [], current_group = 0, last_ip = None\<rparr>"]
  obtain i where "Connection_info i \<in> set (connection_infos 0
        \<lparr>ip_group_map = [], current_group = 0, last_ip = None\<rparr>
        (sort_key sort_key_conn (individual_connections st)))"
      "ci_ip i = ip (snd item)" "ci_port i = port (snd item)" "ci_value i = duration (snd item)"
    by blast
  then show ?thesis by (intro exI [of _ i]) (simp add: render_def)
qed

lemma get_default_simps: "get_default None d = d" "get_default (Some v) d = v"
  by (simp_all add: get_default_def)

lemma ip_durations_fold:
  "map_of (fold (\<lambda>item d. dict_set d (ip (snd item))
                      (get_default (map_of d (ip (snd item))) [] @ [duration (snd item)])) xs d) a =
     (if filter (\<lambda>item. ip (snd item) = a) xs = [] then map_of d a
      else Some (get_default (map_of d a) []
                 @ map (\<lambda>item. duration (snd item)) (filter (\<lambda>item. ip (snd item) = a) xs)))"
proof (induction xs arbitrary: d)
  case Nil
  then show ?case by simp
next
  case (Cons x xs)
  show ?case
    by (cases "ip (snd x) = a") (auto simp: Cons.IH map_of_dict_set get_default_simps)
qed

lemma ip_durations_lookup:
  "map_of (ip_durations_of conns) a =
     (if filter (\<lambda>item. ip (snd item) = a) conns = [] then None
      else Some (map (\<lambda>item. duration (snd item)) (filter (\<lambda>item. ip (snd item) = a) conns)))"
  by (simp add: ip_durations_of_def ip_durations_fold get_default_simps)

lemma ip_durations_without:
  assumes "a \<noteq> b"
  shows "map_of (ip_durations_of (filter (\<lambda>e. ip (snd e) \<noteq> b) conns)) a = map_of (ip_durations_of conns) a"
proof -
  have "filter (\<lambda>item. ip (snd item) = a) (filter (\<lambda>e. ip (snd e) \<noteq> b) conns)
      = filter (\<lambda>item. ip (snd item) = a) conns"
    using assms by (auto intro: filter_cong)
  then show ?thesis by (simp add: ip_durations_lookup)
qed

lemma per_ip_sample_cong:
  "map_of d (fst e) = map_of d' (fst e) \<Longrightarrow> per_ip_sample locs d e = per_ip_sample locs d' e"
  by (simp add: per_ip_sample_def)

lemma countries_fold:
  fixes xs :: "(string \<times> nat) list"
  shows "map_of (fold (\<lambda>e d. dict_set d (country_of locs (fst e))
                   (get_default (map_of d (country_of locs (fst e))) 0 + snd e)) xs d) co =
     (if filter (\<lambda>e. country_of locs (fst e) = co) xs = [] then map_of d co
      else Some (get_default (map_of d co) 0
                 + sum_list (map snd (filter (\<lambda>e. country_of locs (fst e) = co) xs))))"
proof (induction xs arbitrary: d)
  case Nil
  then show ?case by simp
next
  case (Cons x xs)
  show ?case
    by (cases "country_of locs (fst x) = co") (auto simp: Cons.IH map_of_dict_set get_default_simps)
qed

lemma countries_lookup:
  assumes "(co, n) \<in> set (countries_of locs per_ip)"
  shows "n = sum_list (map snd (filter (\<lambda>e. country_of locs (fst e) = co) per_ip))"
proof -
  have "distinct (map fst (countries_of locs per_ip))"
  proof -
    have "distinct (map fst d) \<Longrightarrow> distinct (map fst (fold (\<lambda>e d. dict_set d (country_of locs (fst e))
                   (get_default (map_of d (country_of locs (fst e))) 0 + snd e)) xs d))"
      for xs d :: "(string \<times> nat) list"
      by (induction xs arbitrary: d) (simp_all add: distinct_dict_set)
    from this [of "[]" per_ip] show ?thesis by (simp add: countries_of_def)
  qed
  with assms have "map_of (countries_of locs per_ip) co = Some n" by simp
  then show ?thesis
    by (simp add: countries_of_def countries_fold get_default_simps split: if_splits)
qed

lemma hall_in_display:
  assumes "output_6h inp = Some ls" and "distinct (map fst (hall_of_fame st))"
    and "e \<in> set (hall_of_fame (parse_endlessh_logs inp st))"
  shows "e \<in> set (individual_connections (parse_endlessh_logs inp st))"
proof -
  let ?conns = "p_conns (accept_pass (geo_api inp) (clock inp) ls (ip_locations st) (requests st))"
  have h: "hall_of_fame (parse_endlessh_logs inp st) = merge_hall ls ?conns (hall_of_fame st)"
    by (simp add: hall_after_parse assms(1))
  have dh: "distinct (map fst (hall_of_fame (parse_endlessh_logs inp st)))"
    unfolding h by (rule merge_hall_distinct [OF assms(2)])
  have "distinct (map fst (fst (close_pass ls ?conns (hall_of_fame st))))"
    by (simp add: close_pass_keys accept_pass_distinct)
  then have dt: "distinct (map fst (trapped_connections (clock inp)
      (fst (close_pass ls ?conns (hall_of_fame st)))))"
    by (rule trapped_connections_distinct)
  show ?thesis
    unfolding display_after_parse [OF assms(1)] display_connections_def
    by (rule dict_update_contains [OF dt dh assms(3)])
qed

text \<open>
  C10. After a pass over the long window \<^verbatim>\<open>ls\<close>, \<^verbatim>\<open>connections_per_ip\<close> has exactly
  the addresses of the ACCEPT lines of the window, each with the number of its ACCEPT
  lines. The three rolled-up series of the output are one \<^verbatim>\<open>connections_per_ip\<close> sample
  for each of these addresses, the number of these addresses, and for each country the sum
  of the counts of these addresses in it. An entry of the Hall of Fame whose address has
  no ACCEPT line in the window is among the displayed connections: it has its
  \<^verbatim>\<open>connection_info\<close> sample, it counts in the maximum and in the mean; no
  \<^verbatim>\<open>connections_per_ip\<close> sample bears its address, and the three series are the same
  without the displayed connections of that address.
\<close>

theorem rollups_only_from_open_events:
  assumes "output_6h inp = Some ls" and "distinct (map fst (hall_of_fame st))"
    and "(k, c) \<in> set (hall_of_fame (parse_endlessh_logs inp st))" and "ip c \<notin> open_origins ls"
  shows "fst ` set (connections_per_ip (parse_endlessh_logs inp st)) = open_origins ls
     \<and> (\<forall>(a, n) \<in> set (connections_per_ip (parse_endlessh_logs inp st)). n = length (accepts_of a ls))
     \<and> filter is_rollup (fst (generate_metrics inp st))
         = map (per_ip_sample (ip_locations (parse_endlessh_logs inp st)) (ip_durations_of (individual_connections (parse_endlessh_logs inp st))))
             (connections_per_ip (parse_endlessh_logs inp st))
           @ [Unique_ips (card (open_origins ls))]
           @ map (\<lambda>e. Connections_per_country (strip_quotes (fst e)) (snd e))
               (countries_of (ip_locations (parse_endlessh_logs inp st)) (connections_per_ip (parse_endlessh_logs inp st)))
     \<and> (\<forall>(co, n) \<in> set (countries_of (ip_locations (parse_endlessh_logs inp st)) (connections_per_ip (parse_endlessh_logs inp st))).
           n = sum_list (map snd (filter (\<lambda>e. country_of (ip_locations (parse_endlessh_logs inp st)) (fst e) = co)
                 (connections_per_ip (parse_endlessh_logs inp st)))))
     \<and> (k, c) \<in> set (individual_connections (parse_endlessh_logs inp st))
     \<and> (\<exists>i. Connection_info i \<in> set (fst (generate_metrics inp st))
            \<and> ci_ip i = ip c \<and> ci_port i = port c \<and> ci_value i = duration c)
     \<and> duration c \<le> max_trap_duration (parse_endlessh_logs inp st)
     \<and> avg_trap_duration (parse_endlessh_logs inp st)
         = sum_list (map (\<lambda>(k, c). duration c) (individual_connections (parse_endlessh_logs inp st)))
           / real (length (individual_connections (parse_endlessh_logs inp st)))
     \<and> (\<forall>p. Connections_per_ip p \<in> set (fst (generate_metrics inp st)) \<longrightarrow> pi_ip p \<noteq> ip c)
     \<and> filter is_rollup (render ((parse_endlessh_logs inp st)\<lparr>individual_connections :=
           filter (\<lambda>e. ip (snd e) \<noteq> ip c) (individual_connections (parse_endlessh_logs inp st))\<rparr>))
         = filter is_rollup (fst (generate_metrics inp st))"
proof -
  let ?st = "(parse_endlessh_logs inp st)"
  let ?s0 = "\<lparr>p_conns = [], p_per_ip = [], p_locs = ip_locations st, p_reqs = requests st\<rparr>"
  have g: "(fst (generate_metrics inp st)) = render ?st" by (simp add: generate_metrics_def Let_def)
  have cpi: "connections_per_ip ?st
      = p_per_ip (fold (accept_step (geo_api inp) (clock inp) (closed_ports_of ls)) ls ?s0)"
    by (simp add: per_ip_after_parse assms(1) accept_pass_def)
  have 1: "fst ` set (connections_per_ip ?st) = open_origins ls"
    unfolding cpi by (simp add: accept_fold_per_ip_keys)
  have dk: "distinct (map fst (connections_per_ip ?st))"
    unfolding cpi by (rule accept_fold_per_ip_distinct) simp
  have 2: "\<forall>(a, n) \<in> set (connections_per_ip ?st). n = length (accepts_of a ls)"
  proof (clarify)
    fix a n assume an: "(a, n) \<in> set (connections_per_ip ?st)"
    with dk have "map_of (connections_per_ip ?st) a = Some n" by simp
    moreover from an 1 have "a \<in> open_origins ls" by (auto simp: rev_image_eqI)
    then have "accepts_of a ls \<noteq> []" by (simp add: accepts_of_empty_iff)
    ultimately show "n = length (accepts_of a ls)"
      unfolding cpi by (simp add: accept_fold_per_ip_count get_default_simps)
  qed
  have "length (connections_per_ip ?st) = card (fst ` set (connections_per_ip ?st))"
    using distinct_card [OF dk] by simp
  then have len: "length (connections_per_ip ?st) = card (open_origins ls)" by (simp only: 1)
  have 3: "filter is_rollup (fst (generate_metrics inp st))
         = map (per_ip_sample (ip_locations ?st) (ip_durations_of (individual_connections ?st)))
             (connections_per_ip ?st)
           @ [Unique_ips (card (open_origins ls))]
           @ map (\<lambda>e. Connections_per_country (strip_quotes (fst e)) (snd e))
               (countries_of (ip_locations ?st) (connections_per_ip ?st))"
    unfolding g rollup_of_render len ..
  have 4: "\<forall>(co, n) \<in> set (countries_of (ip_locations ?st) (connections_per_ip ?st)).
           n = sum_list (map snd (filter (\<lambda>e. country_of (ip_locations ?st) (fst e) = co)
                 (connections_per_ip ?st)))"
    using countries_lookup by blast
  have 5: "(k, c) \<in> set (individual_connections ?st)"
    by (rule hall_in_display [OF assms(1,2,3)])
  from conn_info_in_render [OF 5]
  have 6: "\<exists>i. Connection_info i \<in> set (fst (generate_metrics inp st))
            \<and> ci_ip i = ip c \<and> ci_port i = port c \<and> ci_value i = duration c"
    unfolding g by simp
  from 5 have ne: "individual_connections ?st \<noteq> []" by auto
  note ma = max_avg_after_parse [OF assms(1), of st]
  have "duration c \<in> set (map (\<lambda>(k, c). duration c) (individual_connections ?st))"
    using 5 by force
  then have "duration c \<le> Max (set (map (\<lambda>(k, c). duration c) (individual_connections ?st)))"
    by (intro Max_ge) simp_all
  with ma ne have 7: "duration c \<le> max_trap_duration ?st" by simp
  from ma ne have 8: "avg_trap_duration ?st
         = sum_list (map (\<lambda>(k, c). duration c) (individual_connections ?st))
           / real (length (individual_connections ?st))" by simp
  have 9: "\<forall>p. Connections_per_ip p \<in> set (fst (generate_metrics inp st)) \<longrightarrow> pi_ip p \<noteq> ip c"
  proof (intro allI impI)
    fix p assume "Connections_per_ip p \<in> set (fst (generate_metrics inp st))"
    then have "pi_ip p \<in> fst ` set (connections_per_ip ?st)"
      unfolding g by (rule per_ip_in_render)
    with 1 assms(4) show "pi_ip p \<noteq> ip c" by auto
  qed
  have 10: "filter is_rollup (render (?st\<lparr>individual_connections :=
           filter (\<lambda>e. ip (snd e) \<noteq> ip c) (individual_connections ?st)\<rparr>))
         = filter is_rollup (fst (generate_metrics inp st))"
  proof -
    have "per_ip_sample (ip_locations ?st)
            (ip_durations_of (filter (\<lambda>e. ip (snd e) \<noteq> ip c) (individual_connections ?st))) e
        = per_ip_sample (ip_locations ?st) (ip_durations_of (individual_connections ?st)) e"
      if "e \<in> set (connections_per_ip ?st)" for e
    proof (rule per_ip_sample_cong)
      from that have "fst e \<in> fst ` set (connections_per_ip ?st)" by (rule imageI)
      with 1 assms(4) have "fst e \<noteq> ip c" by auto
      then show "map_of (ip_durations_of (filter (\<lambda>e. ip (snd e) \<noteq> ip c) (individual_connections ?st))) (fst e)
          = map_of (ip_durations_of (individual_connections ?st)) (fst e)"
        by (rule ip_durations_without)
    qed
    then show ?thesis unfolding g rollup_of_render by simp
  qed
  from 1 2 3 4 5 6 7 8 9 10 show ?thesis by blast
qed

theorem rollups_only_from_open_events_witness:
  "output_6h example_pass = Some example_window
   \<and> distinct (map fst (hall_of_fame example_engine))
   \<and> (''192.0.2.77:50000'', example_conn ''192.0.2.77'' ''50000'' 5000 Released)
        \<in> set (hall_of_fame (parse_endlessh_logs example_pass example_engine))
   \<and> ''192.0.2.77'' \<notin> open_origins example_window
   \<and> fst ` set (connections_per_ip (parse_endlessh_logs example_pass example_engine))
       = {''203.0.113.5'', ''203.0.113.9''}
   \<and> 5000 \<le> max_trap_duration (parse_endlessh_logs example_pass example_engine)
   \<and> (''192.0.2.77:50000'', example_conn ''192.0.2.77'' ''50000'' 5000 Released)
        \<in> set (individual_connections (parse_endlessh_logs example_pass example_engine))"
proof -
  let ?c = "example_conn ''192.0.2.77'' ''50000'' 5000 Released"
  have o: "output_6h example_pass = Some example_window" by (simp add: example_pass_def)
  have d: "distinct (map fst (hall_of_fame example_engine))"
    by (simp add: example_engine_def example_old_hall_def)
  have h: "(''192.0.2.77:50000'', ?c) \<in> set (hall_of_fame (parse_endlessh_logs example_pass example_engine))"
    by (simp add: hall_after_parse o example_pass_def example_engine_def initial_engine_def
        example_merge)
  have oo: "open_origins example_window = {''203.0.113.5'', ''203.0.113.9''}"
    by (simp add: open_origins_def example_window_def example_line_defs List.map_filter_def)
  have i: "ip ?c = ''192.0.2.77''" "duration ?c = 5000" by (simp_all add: example_conn_def)
  have n: "ip ?c \<notin> open_origins example_window" by (simp add: oo i)
  note t = rollups_only_from_open_events [OF o d h n]
  from t have 1: "fst ` set (connections_per_ip (parse_endlessh_logs example_pass example_engine))
       = {''203.0.113.5'', ''203.0.113.9''}" unfolding oo by blast
  from t have 2: "5000 \<le> max_trap_duration (parse_endlessh_logs example_pass example_engine)"
    unfolding i by blast
  from t have 3: "(''192.0.2.77:50000'', ?c)
        \<in> set (individual_connections (parse_endlessh_logs example_pass example_engine))" by blast
  from n have 4: "''192.0.2.77'' \<notin> open_origins example_window" by (simp add: i)
  from o d h 4 1 2 3 show ?thesis by blast
qed

section \<open>Reading the same window again\<close>

lemma cache_inv_None:
  assumes "cache_inv api locs0 locs" and "locs a = None"
  shows "locs0 a = None"
proof (cases "locs0 a")
  case None
  then show ?thesis .
next
  case (Some g)
  then have "resolved api locs0 a = Some g" by (simp add: resolved_def)
  with assms Some show ?thesis unfolding cache_inv_def by (metis option.distinct(1))
qed

lemma cache_inv_Some:
  assumes "cache_inv api locs0 locs" and "locs a = Some g"
  shows "resolved api locs0 a = Some g"
  using assms unfolding cache_inv_def by (metis option.distinct(1))

lemma cache_inv_upd:
  assumes "cache_inv api locs0 locs" and "resolved api locs0 a = Some g"
  shows "cache_inv api locs0 (locs(a \<mapsto> g))"
  using assms unfolding cache_inv_def by auto

lemma lookup_resolved:
  assumes "stable api" and "cache_inv api locs0 locs"
  shows "fst (lookup_if_missing api a (locs, reqs)) a = resolved api locs0 a
       \<and> cache_inv api locs0 (fst (lookup_if_missing api a (locs, reqs)))"
proof (cases "locs a")
  case (Some g)
  then have "lookup_if_missing api a (locs, reqs) = (locs, reqs)"
    by (simp add: lookup_if_missing_def domIff)
  with Some assms(2) cache_inv_Some [OF assms(2) Some] show ?thesis by simp
next
  case None
  from cache_inv_None [OF assms(2) None] have l0: "locs0 a = None" .
  from assms(1) have st: "api (length reqs) a = api 0 a" by (simp add: stable_def)
  from None have lk: "lookup_if_missing api a (locs, reqs) = snd (get_geoip_data api a (locs, reqs))"
    by (simp add: lookup_if_missing_def domIff)
  show ?thesis
  proof (cases "api 0 a")
    case ApiRaises
    then have "resolved api locs0 a = None" by (simp add: resolved_def l0)
    moreover have "snd (get_geoip_data api a (locs, reqs)) = (locs, reqs @ [a])"
      by (simp add: get_geoip_data_def None st ApiRaises)
    ultimately show ?thesis using assms(2) None by (simp add: lk)
  next
    case (ApiData d)
    show ?thesis
    proof (cases "api_status d = Some ''success''")
      case True
      then have r: "resolved api locs0 a = Some (geo_of_data d)"
        by (simp add: resolved_def l0 ApiData)
      have "snd (get_geoip_data api a (locs, reqs)) = (locs(a \<mapsto> geo_of_data d), reqs @ [a])"
        by (simp add: get_geoip_data_def None st ApiData True)
      with r cache_inv_upd [OF assms(2) r] show ?thesis by (simp add: lk)
    next
      case False
      then have "resolved api locs0 a = None" by (simp add: resolved_def l0 ApiData)
      moreover have "snd (get_geoip_data api a (locs, reqs)) = (locs, reqs @ [a])"
        by (simp add: get_geoip_data_def None st ApiData False)
      ultimately show ?thesis using assms(2) None by (simp add: lk)
    qed
  qed
qed

lemma accept_step_stable:
  assumes "stable api" and "cache_inv api locs0 (p_locs s)"
  shows "p_conns (accept_step api now cp l s) = store_step (resolved api locs0) now cp l (p_conns s)
       \<and> cache_inv api locs0 (p_locs (accept_step api now cp l s))"
proof (cases "accept_m l")
  case None
  with assms(2) show ?thesis by (simp add: accept_step_None store_step_def)
next
  case (Some m)
  from lookup_resolved [OF assms, of "a_ip m" "p_reqs s"] show ?thesis
    by (simp add: accept_step_def Some Let_def store_step_def)
qed

lemma accept_fold_stable:
  assumes "stable api" and "cache_inv api locs0 (p_locs s)"
  shows "p_conns (fold (accept_step api now cp) xs s)
           = fold (store_step (resolved api locs0) now cp) xs (p_conns s)
       \<and> cache_inv api locs0 (p_locs (fold (accept_step api now cp) xs s))"
  using assms(2)
proof (induction xs arbitrary: s)
  case Nil
  then show ?case by simp
next
  case (Cons l xs)
  from accept_step_stable [OF assms(1) Cons.prems, of now cp l]
  have 1: "p_conns (accept_step api now cp l s) = store_step (resolved api locs0) now cp l (p_conns s)"
    and 2: "cache_inv api locs0 (p_locs (accept_step api now cp l s))" by simp_all
  from Cons.IH [OF 2] 1 show ?case by simp
qed

lemma cache_inv_refl: "cache_inv api locs locs"
  unfolding cache_inv_def resolved_def by (auto split: option.splits)

lemma store_step_now:
  assumes "accept_m l \<noteq> None \<longrightarrow> ts_m l \<noteq> None"
  shows "store_step eff now cp l d = store_step eff now' cp l d"
  using assms by (auto simp: store_step_def new_conn_def split: option.splits)

lemma store_fold_now:
  assumes "\<forall>l \<in> set xs. accept_m l \<noteq> None \<longrightarrow> ts_m l \<noteq> None"
  shows "fold (store_step eff now cp) xs d = fold (store_step eff now' cp) xs d"
  using assms
proof (induction xs arbitrary: d)
  case Nil
  then show ?case by simp
next
  case (Cons l xs)
  from Cons.prems have "store_step eff now cp l d = store_step eff now' cp l d"
    by (intro store_step_now) simp
  with Cons show ?case by simp
qed

lemma live_live: "live now' (live now c) = live now' c"
  by (simp add: live_def)

lemma recompute_recompute:
  "recompute_trapped now' (recompute_trapped now conns) = recompute_trapped now' conns"
  by (simp add: recompute_trapped_def comp_def case_prod_beta live_live)

text \<open>The working set of a second pass over the same window, after a first one.\<close>

lemma working_set_again:
  assumes "stable api"
    and "\<forall>l \<in> set ls. accept_m l \<noteq> None \<longrightarrow> ts_m l \<noteq> None"
  shows "working_set api now' ls
           (p_locs (accept_pass api now ls locs reqs)) (p_reqs (accept_pass api now ls locs reqs))
         = recompute_trapped now' (working_set api now ls locs reqs)"
proof -
  let ?s0 = "\<lparr>p_conns = [], p_per_ip = [], p_locs = locs, p_reqs = reqs\<rparr>"
  let ?p = "accept_pass api now ls locs reqs"
  let ?s1 = "\<lparr>p_conns = [], p_per_ip = [], p_locs = p_locs ?p, p_reqs = p_reqs ?p\<rparr>"
  have i0: "cache_inv api locs (p_locs ?s0)" by (simp add: cache_inv_refl)
  from accept_fold_stable [OF assms(1) i0, of now "closed_ports_of ls" ls]
  have c1: "p_conns ?p = fold (store_step (resolved api locs) now (closed_ports_of ls)) ls []"
    and i1: "cache_inv api locs (p_locs ?p)" by (simp_all add: accept_pass_def)
  from i1 have "cache_inv api locs (p_locs ?s1)" by simp
  from accept_fold_stable [OF assms(1) this, of now' "closed_ports_of ls" ls]
  have "p_conns (accept_pass api now' ls (p_locs ?p) (p_reqs ?p))
      = fold (store_step (resolved api locs) now' (closed_ports_of ls)) ls []"
    by (simp add: accept_pass_def)
  also have "\<dots> = fold (store_step (resolved api locs) now (closed_ports_of ls)) ls []"
    by (rule store_fold_now [OF assms(2)])
  finally have "p_conns (accept_pass api now' ls (p_locs ?p) (p_reqs ?p)) = p_conns ?p"
    by (simp add: c1)
  then show ?thesis by (simp add: working_set_def recompute_recompute)
qed

lemma trapped_duration:
  assumes "(k, c) \<in> set (working_set api now ls locs reqs)" and "status c = Trapped"
  shows "duration c = now - started c"
proof -
  from assms(1) obtain c0 where "c = live now c0"
    by (auto simp: working_set_def recompute_trapped_def)
  with assms(2) show ?thesis by (auto simp: live_def split: if_splits)
qed

lemma single_trapped:
  assumes "l \<in> set ls" and "accept_m l = Some m" and "a_port m \<notin> closed_ports_of ls"
    and "\<forall>l \<in> set ls. line_ok l"
  shows "\<exists>c. filter (\<lambda>e. fst e = conn_id_of (a_ip m) (a_port m)) (working_set api now ls locs reqs)
              = [(conn_id_of (a_ip m) (a_port m), c)]
            \<and> status c = Trapped \<and> duration c = now - started c"
proof -
  let ?k = "conn_id_of (a_ip m) (a_port m)"
  let ?W = "working_set api now ls locs reqs"
  from assms(1,2) have "?k \<in> fst ` set ?W" unfolding working_set_keys by blast
  then obtain c where c: "(?k, c) \<in> set ?W" by auto
  from filter_key_distinct [OF working_set_distinct c]
  have f: "filter (\<lambda>e. fst e = ?k) ?W = [(?k, c)]" .
  from working_set_built [OF c] obtain l' where
    l': "l' \<in> set ls" "built_from now (closed_ports_of ls) l' (?k, c)" by blast
  then obtain m' where m': "accept_m l' = Some m'" "?k = conn_id_of (a_ip m') (a_port m')"
      "status c = (if a_port m' \<in> closed_ports_of ls then Released else Trapped)"
    by (auto simp: built_from_def split: option.splits)
  from assms(4) assms(1) have "line_ok l" by blast
  then have "digits_and_dots (a_ip m)" by (simp add: line_ok_def assms(2))
  then have 1: "CHR '':'' \<notin> set (a_ip m)" by (rule digits_and_dots_no_colon)
  from assms(4) l'(1) have "line_ok l'" by blast
  then have "digits_and_dots (a_ip m')" by (simp add: line_ok_def m'(1))
  then have 2: "CHR '':'' \<notin> set (a_ip m')" by (rule digits_and_dots_no_colon)
  from conn_id_of_inj [OF 1 2 m'(2)] have "a_port m' = a_port m" by simp
  with m'(3) assms(3) have t: "status c = Trapped" by simp
  from trapped_duration [OF c t] f t show ?thesis by blast
qed

lemma close_pass_skip:
  assumes "close_m l = Some m" and "conn_id_of (c_ip m) (c_port m) \<notin> fst ` set conns"
  shows "close_pass (xs @ l # ys) conns hof = close_pass (xs @ ys) conns hof"
proof -
  obtain c1 h1 where s1: "fold close_step xs (conns, hof) = (c1, h1)"
    by (cases "fold close_step xs (conns, hof)")
  from close_fold_keys [of xs "(conns, hof)"] s1 have "map fst c1 = map fst conns" by simp
  then have "fst ` set c1 = fst ` set conns" by (metis list.set_map)
  with assms(2) have "map_of c1 (conn_id_of (c_ip m) (c_port m)) = None"
    by (simp add: map_of_eq_None_iff)
  from close_step_no_open [OF assms(1) this] have "close_step l (c1, h1) = (c1, h1)" .
  then show ?thesis by (simp add: close_pass_def s1)
qed

lemma counter_same_text:
  assumes "output_6h inp1 = Some w1" and "output_6h inp2 = Some w2"
    and "output_5min inp1 = Some ls5" and "output_5min inp2 = Some ls5"
    and "card (seen_log_entries st \<union> log_ids ls5) \<le> 1000"
  shows "total_connections_counter (parse_endlessh_logs inp2 (parse_endlessh_logs inp1 st))
       = total_connections_counter (parse_endlessh_logs inp1 st)"
proof -
  have "seen_log_entries (parse_endlessh_logs inp1 st) = seen_log_entries st \<union> log_ids ls5"
    using assms(5) by (simp add: seen_after_parse assms(1,3) cleanup_seen_def)
  moreover have e: "log_ids ls5 - (seen_log_entries st \<union> log_ids ls5) = {}" by blast
  have "card (log_ids ls5 - (seen_log_entries st \<union> log_ids ls5)) = 0"
    unfolding e by simp
  ultimately show ?thesis by (simp only: counter_after_parse [of inp2] assms(2,4) option.case add_0_right)
qed

lemma open_ports_iff:
  "p \<in> open_ports ls \<longleftrightarrow> (\<exists>l m. l \<in> set ls \<and> accept_m l = Some m \<and> a_port m = p)"
  by (force simp: open_ports_def List.map_filter_def)

lemma accept_step_ports:
  assumes "\<forall>m. accept_m l = Some m \<longrightarrow> (a_port m \<in> cp \<longleftrightarrow> a_port m \<in> cp')"
  shows "accept_step api now cp l s = accept_step api now cp' l s"
  using assms by (cases "accept_m l") (simp_all add: accept_step_def new_conn_def Let_def)

lemma accept_fold_ports:
  assumes "\<forall>l \<in> set xs. \<forall>m. accept_m l = Some m \<longrightarrow> (a_port m \<in> cp \<longleftrightarrow> a_port m \<in> cp')"
  shows "fold (accept_step api now cp) xs s = fold (accept_step api now cp') xs s"
  using assms
proof (induction xs arbitrary: s)
  case Nil
  then show ?case by simp
next
  case (Cons l xs)
  from Cons.prems have "accept_step api now cp l s = accept_step api now cp' l s"
    by (intro accept_step_ports) simp
  with Cons show ?case by simp
qed

lemma closed_ports_of_without:
  assumes "close_m l = Some m"
  shows "closed_ports_of (xs @ l # ys) = insert (c_port m) (closed_ports_of (xs @ ys))"
  using assms by (simp add: closed_ports_of_def List.map_filter_def)

text \<open>
  A CLOSE line whose port no ACCEPT line of the window bears can be left out of the
  window.
\<close>

lemma accept_pass_without:
  assumes "accept_m l = None" and "close_m l = Some m" and "c_port m \<notin> open_ports (xs @ l # ys)"
  shows "accept_pass api now (xs @ l # ys) locs reqs = accept_pass api now (xs @ ys) locs reqs"
proof -
  let ?s0 = "\<lparr>p_conns = [], p_per_ip = [], p_locs = locs, p_reqs = reqs\<rparr>"
  let ?cp = "closed_ports_of (xs @ l # ys)"
  have "fold (accept_step api now ?cp) (xs @ l # ys) ?s0 = fold (accept_step api now ?cp) (xs @ ys) ?s0"
    by (simp add: accept_step_None [OF assms(1)])
  also have "\<dots> = fold (accept_step api now (closed_ports_of (xs @ ys))) (xs @ ys) ?s0"
  proof (rule accept_fold_ports, intro ballI allI impI)
    fix l' m' assume l': "l' \<in> set (xs @ ys)" and m': "accept_m l' = Some m'"
    then have "a_port m' \<in> open_ports (xs @ l # ys)" by (auto simp: open_ports_iff)
    with assms(3) have "a_port m' \<noteq> c_port m" by auto
    then show "a_port m' \<in> ?cp \<longleftrightarrow> a_port m' \<in> closed_ports_of (xs @ ys)"
      by (simp add: closed_ports_of_without [OF assms(2)])
  qed
  finally show ?thesis by (simp add: accept_pass_def)
qed

lemma unmatched_key:
  assumes "\<forall>l \<in> set ls. line_ok l" and "l \<in> set ls" and "close_m l = Some m"
    and "c_port m \<notin> open_ports ls"
  shows "conn_id_of (c_ip m) (c_port m) \<notin> fst ` set (p_conns (accept_pass api now ls locs reqs))"
proof
  assume "conn_id_of (c_ip m) (c_port m) \<in> fst ` set (p_conns (accept_pass api now ls locs reqs))"
  then obtain l' m' where l': "l' \<in> set ls" "accept_m l' = Some m'"
      "conn_id_of (c_ip m) (c_port m) = conn_id_of (a_ip m') (a_port m')"
    unfolding accept_pass_keys by blast
  from assms(1,2) have "line_ok l" by blast
  then have "digits_and_dots (c_ip m)" by (simp add: line_ok_def assms(3))
  then have 1: "CHR '':'' \<notin> set (c_ip m)" by (rule digits_and_dots_no_colon)
  from assms(1) l'(1) have "line_ok l'" by blast
  then have "digits_and_dots (a_ip m')" by (simp add: line_ok_def l'(2))
  then have 2: "CHR '':'' \<notin> set (a_ip m')" by (rule digits_and_dots_no_colon)
  from conn_id_of_inj [OF 1 2 l'(3)] have "c_port m = a_port m'" by simp
  with l'(1,2) have "c_port m \<in> open_ports ls" by (auto simp: open_ports_iff)
  with assms(4) show False by simp
qed

lemma pass_without:
  assumes "\<forall>l \<in> set (xs @ l # ys). line_ok l" and "accept_m l = None" and "close_m l = Some m"
    and "c_port m \<notin> open_ports (xs @ l # ys)"
  shows "accept_pass api now (xs @ l # ys) locs reqs = accept_pass api now (xs @ ys) locs reqs
       \<and> close_pass (xs @ l # ys) (p_conns (accept_pass api now (xs @ l # ys) locs reqs)) hof
           = close_pass (xs @ ys) (p_conns (accept_pass api now (xs @ ys) locs reqs)) hof
       \<and> working_set api now (xs @ l # ys) locs reqs = working_set api now (xs @ ys) locs reqs"
proof -
  have a: "accept_pass api now (xs @ l # ys) locs reqs = accept_pass api now (xs @ ys) locs reqs"
    by (rule accept_pass_without [OF assms(2,3,4)])
  have "l \<in> set (xs @ l # ys)" by simp
  from unmatched_key [OF assms(1) this assms(3,4), of api now locs reqs]
  have u: "conn_id_of (c_ip m) (c_port m)
      \<notin> fst ` set (p_conns (accept_pass api now (xs @ l # ys) locs reqs))" .
  have c: "close_pass (xs @ l # ys) (p_conns (accept_pass api now (xs @ l # ys) locs reqs)) h
      = close_pass (xs @ ys) (p_conns (accept_pass api now (xs @ ys) locs reqs)) h" for h
    using close_pass_skip [OF assms(3) u, of xs ys h] by (simp add: a)
  from a c [of hof] c [of "[]"] show ?thesis by (simp add: working_set_def)
qed

lemma flood_second_pass:
  "total_connections_counter
     (parse_endlessh_logs flood_scrape (parse_endlessh_logs flood_scrape initial_engine)) = 2002"
proof -
  have out: "output_6h flood_scrape = Some flood_lines" "output_5min flood_scrape = Some flood_lines"
    by (simp_all add: flood_scrape_def)
  show ?thesis
    unfolding counter_after_parse [of flood_scrape "parse_endlessh_logs flood_scrape initial_engine"] out
    by (simp add: flood_first_pass card_flood_ids)
qed

lemma example_flaky_first:
  "working_set flaky_service 2000 example_stamped Map.empty []
     = [(''203.0.113.5:40001'', example_conn ''203.0.113.5'' ''40001'' 1000 Trapped\<lparr>started := 1000\<rparr>)]"
  "p_reqs (accept_pass flaky_service 2000 example_stamped Map.empty []) = [''203.0.113.5'']"
  "p_locs (accept_pass flaky_service 2000 example_stamped Map.empty []) ''203.0.113.5'' = None"
  by (simp_all add: example_stamped_def example_line_defs pass_defs Let_def example_conn_def
      flaky_service_def)

lemma example_flaky_second:
  "working_set flaky_service 2060 example_stamped Map.empty [''203.0.113.5'']
     = [(''203.0.113.5:40001'',
         \<lparr>ip = ''203.0.113.5'', port = ''40001'', fd = ''4'', country = ''Germany'',
          city = ''Berlin'', country_code = ''DE'', started = 1000, duration = 1060,
          status = Trapped\<rparr>)]"
  by (simp add: example_stamped_def example_line_defs pass_defs Let_def flaky_service_def
      geo_of_data_def)

lemma example_stamped_alone:
  "working_set no_geo_service 2000 example_stamped Map.empty []
     = [(''203.0.113.5:40001'', example_conn ''203.0.113.5'' ''40001'' 1000 Trapped\<lparr>started := 1000\<rparr>)]"
  by (simp add: example_stamped_def example_line_defs pass_defs Let_def example_conn_def)

text \<open>
  C7, as stated, fails in five ways. An ACCEPT line without a time stamp gives a record
  whose start time is the clock of the pass, so two passes over the same text give records
  that differ in more than a duration. A lookup that fails in the first pass and succeeds
  in the second gives the record of the same line other location values. A short window
  of 1001 ACCEPT lines read twice raises the counter from 1001 to 2002. An ACCEPT line
  whose key matches no CLOSE line gives a released record when another address closes the
  same port number. And that CLOSE line, whose key matches no ACCEPT line, is not ignored:
  without it the record is trapped with a duration of 1000 seconds, with it the record is
  released with duration 0.
\<close>

theorem rescan_counterexample:
  "working_set no_geo_service 2000 example_unstamped Map.empty []
     = [(''203.0.113.5:40001'', example_conn ''203.0.113.5'' ''40001'' 0 Trapped\<lparr>started := 2000\<rparr>)]
   \<and> working_set no_geo_service 2060 example_unstamped Map.empty [''203.0.113.5'']
     = [(''203.0.113.5:40001'', example_conn ''203.0.113.5'' ''40001'' 0 Trapped\<lparr>started := 2060\<rparr>)]
   \<and> working_set flaky_service 2000 example_stamped Map.empty []
     = [(''203.0.113.5:40001'', example_conn ''203.0.113.5'' ''40001'' 1000 Trapped\<lparr>started := 1000\<rparr>)]
   \<and> p_reqs (accept_pass flaky_service 2000 example_stamped Map.empty []) = [''203.0.113.5'']
   \<and> p_locs (accept_pass flaky_service 2000 example_stamped Map.empty []) ''203.0.113.5'' = None
   \<and> working_set flaky_service 2060 example_stamped Map.empty [''203.0.113.5'']
     = [(''203.0.113.5:40001'',
         \<lparr>ip = ''203.0.113.5'', port = ''40001'', fd = ''4'', country = ''Germany'',
          city = ''Berlin'', country_code = ''DE'', started = 1000, duration = 1060,
          status = Trapped\<rparr>)]
   \<and> total_connections_counter (parse_endlessh_logs flood_scrape initial_engine) = 1001
   \<and> total_connections_counter
        (parse_endlessh_logs flood_scrape (parse_endlessh_logs flood_scrape initial_engine)) = 2002
   \<and> example_port_clash
     = example_stamped
       @ [close_line ''198.51.100.7'' ''40001'' ''5'' 12.5 (stamp ''2025-10-14T16:20:00'' 1167)]
   \<and> last_close_time ''203.0.113.5:40001'' example_port_clash = None
   \<and> map fst (working_set no_geo_service 2000 example_port_clash Map.empty []) = [''203.0.113.5:40001'']
   \<and> trapped_connections 2000 (working_set no_geo_service 2000 example_port_clash Map.empty []) = []
   \<and> working_set no_geo_service 2000 example_stamped Map.empty []
     = [(''203.0.113.5:40001'', example_conn ''203.0.113.5'' ''40001'' 1000 Trapped\<lparr>started := 1000\<rparr>)]
   \<and> working_set no_geo_service 2000 example_port_clash Map.empty []
     = [(''203.0.113.5:40001'', example_conn ''203.0.113.5'' ''40001'' 0 Released\<lparr>started := 1000\<rparr>)]"
proof -
  have 1: "working_set no_geo_service 2000 example_unstamped Map.empty []
     = [(''203.0.113.5:40001'', example_conn ''203.0.113.5'' ''40001'' 0 Trapped\<lparr>started := 2000\<rparr>)]"
    by (simp add: example_unstamped_def example_line_defs pass_defs Let_def example_conn_def)
  have 2: "working_set no_geo_service 2060 example_unstamped Map.empty [''203.0.113.5'']
     = [(''203.0.113.5:40001'', example_conn ''203.0.113.5'' ''40001'' 0 Trapped\<lparr>started := 2060\<rparr>)]"
    by (simp add: example_unstamped_def example_line_defs pass_defs Let_def example_conn_def)
  have 4: "example_port_clash
     = example_stamped
       @ [close_line ''198.51.100.7'' ''40001'' ''5'' 12.5 (stamp ''2025-10-14T16:20:00'' 1167)]"
    by (simp add: example_port_clash_def example_stamped_def)
  have 5: "last_close_time ''203.0.113.5:40001'' example_port_clash = None"
    by (simp add: example_port_clash_def example_line_defs closes_def conn_id_of_def)
  have 6: "map fst (working_set no_geo_service 2000 example_port_clash Map.empty []) = [''203.0.113.5:40001'']"
    by (simp add: example_port_clash_working_set)
  have 7: "trapped_connections 2000 (working_set no_geo_service 2000 example_port_clash Map.empty []) = []"
    by (simp add: example_port_clash_working_set trapped_connections_def recompute_trapped_def live_def)
  have 8: "working_set no_geo_service 2000 example_port_clash Map.empty []
     = [(''203.0.113.5:40001'', example_conn ''203.0.113.5'' ''40001'' 0 Released\<lparr>started := 1000\<rparr>)]"
    by (simp add: example_port_clash_working_set example_conn_def)
  from 1 2 example_flaky_first example_flaky_second flood_first_pass(1) flood_second_pass
    4 5 6 7 example_stamped_alone 8
  show ?thesis by blast
qed

text \<open>
  C7, amended. Let two passes read the same long and short windows, with a geolocation
  service that answers every address the same way at each request, lines whose address
  groups are digits and dots, and a time stamp on every ACCEPT line. Then the working set
  of the second pass is that of the first with the durations of the trapped records taken
  from the clock of the second pass: the same keys, no key twice, the same records
  otherwise. If the recency set was not emptied at the end of the first pass (it held at
  most 1000 identifiers), the counter is the same after the second pass. In each of the
  two working sets an ACCEPT line whose port no CLOSE line of the window bears has exactly
  one record, and it is trapped. A CLOSE line whose key is the key of no ACCEPT line of
  the window is skipped by the loop over the CLOSE lines: that loop assigns no duration
  and stores nothing into the Hall of Fame for it. Its port is still among the ports of
  the CLOSE lines; when it has no ACCEPT match itself and no ACCEPT line of the window
  bears its port, the pass is the same as over the window without the line.
\<close>

theorem rescan_same_text:
  assumes "stable api" and "geo_api inp1 = api" and "geo_api inp2 = api"
    and "output_6h inp1 = Some ls" and "output_6h inp2 = Some ls"
    and "output_5min inp1 = Some ls5" and "output_5min inp2 = Some ls5"
    and "\<forall>l \<in> set ls. line_ok l \<and> (accept_m l \<noteq> None \<longrightarrow> ts_m l \<noteq> None)"
    and "card (seen_log_entries st \<union> log_ids ls5) \<le> 1000"
  shows "(working_set api (clock inp2) ls (ip_locations (parse_endlessh_logs inp1 st)) (requests (parse_endlessh_logs inp1 st))) = recompute_trapped (clock inp2) (working_set api (clock inp1) ls (ip_locations st) (requests st))
     \<and> map fst (working_set api (clock inp2) ls (ip_locations (parse_endlessh_logs inp1 st)) (requests (parse_endlessh_logs inp1 st))) = map fst (working_set api (clock inp1) ls (ip_locations st) (requests st))
     \<and> distinct (map fst (working_set api (clock inp2) ls (ip_locations (parse_endlessh_logs inp1 st)) (requests (parse_endlessh_logs inp1 st))))
     \<and> total_connections_counter (parse_endlessh_logs inp2 (parse_endlessh_logs inp1 st)) = total_connections_counter (parse_endlessh_logs inp1 st)
     \<and> (\<forall>l m. l \<in> set ls \<and> accept_m l = Some m \<and> a_port m \<notin> closed_ports_of ls \<longrightarrow>
          (\<exists>c. filter (\<lambda>e. fst e = conn_id_of (a_ip m) (a_port m)) (working_set api (clock inp1) ls (ip_locations st) (requests st))
                  = [(conn_id_of (a_ip m) (a_port m), c)] \<and> status c = Trapped)
          \<and> (\<exists>c. filter (\<lambda>e. fst e = conn_id_of (a_ip m) (a_port m)) (working_set api (clock inp2) ls (ip_locations (parse_endlessh_logs inp1 st)) (requests (parse_endlessh_logs inp1 st)))
                  = [(conn_id_of (a_ip m) (a_port m), c)] \<and> status c = Trapped))
     \<and> (\<forall>xs l ys m. ls = xs @ l # ys \<and> close_m l = Some m
            \<and> conn_id_of (c_ip m) (c_port m) \<notin> fst ` set (working_set api (clock inp1) ls (ip_locations st) (requests st)) \<longrightarrow>
          close_pass ls (p_conns (accept_pass api (clock inp1) ls (ip_locations st) (requests st)))
              (hall_of_fame st)
            = close_pass (xs @ ys)
                (p_conns (accept_pass api (clock inp1) ls (ip_locations st) (requests st)))
                (hall_of_fame st))
     \<and> (\<forall>xs l ys m. ls = xs @ l # ys \<and> accept_m l = None \<and> close_m l = Some m
            \<and> c_port m \<notin> open_ports ls \<longrightarrow>
          accept_pass api (clock inp1) ls (ip_locations st) (requests st)
            = accept_pass api (clock inp1) (xs @ ys) (ip_locations st) (requests st)
          \<and> close_pass ls (p_conns (accept_pass api (clock inp1) ls (ip_locations st) (requests st)))
              (hall_of_fame st)
            = close_pass (xs @ ys)
                (p_conns (accept_pass api (clock inp1) (xs @ ys) (ip_locations st) (requests st)))
                (hall_of_fame st)
          \<and> working_set api (clock inp1) ls (ip_locations st) (requests st)
            = working_set api (clock inp1) (xs @ ys) (ip_locations st) (requests st))"
proof -
  let ?p = "accept_pass api (clock inp1) ls (ip_locations st) (requests st)"
  from assms(8) have ts: "\<forall>l \<in> set ls. accept_m l \<noteq> None \<longrightarrow> ts_m l \<noteq> None"
    and ok: "\<forall>l \<in> set ls. line_ok l" by simp_all
  have l1: "ip_locations (parse_endlessh_logs inp1 st) = p_locs ?p" by (simp add: locs_after_parse assms(2,4))
  have r1: "requests (parse_endlessh_logs inp1 st) = p_reqs ?p" by (simp add: requests_after_parse assms(2,4))
  have 1: "(working_set api (clock inp2) ls (ip_locations (parse_endlessh_logs inp1 st)) (requests (parse_endlessh_logs inp1 st))) = recompute_trapped (clock inp2) (working_set api (clock inp1) ls (ip_locations st) (requests st))"
    unfolding l1 r1 by (rule working_set_again [OF assms(1) ts])
  have 2: "map fst (working_set api (clock inp2) ls (ip_locations (parse_endlessh_logs inp1 st)) (requests (parse_endlessh_logs inp1 st))) = map fst (working_set api (clock inp1) ls (ip_locations st) (requests st))"
    unfolding 1 by (simp add: recompute_trapped_def comp_def case_prod_beta)
  have 3: "distinct (map fst (working_set api (clock inp2) ls (ip_locations (parse_endlessh_logs inp1 st)) (requests (parse_endlessh_logs inp1 st))))" by (rule working_set_distinct)
  have 4: "total_connections_counter (parse_endlessh_logs inp2 (parse_endlessh_logs inp1 st)) = total_connections_counter (parse_endlessh_logs inp1 st)"
    by (rule counter_same_text [OF assms(4,5,6,7,9)])
  have 5: "\<forall>l m. l \<in> set ls \<and> accept_m l = Some m \<and> a_port m \<notin> closed_ports_of ls \<longrightarrow>
          (\<exists>c. filter (\<lambda>e. fst e = conn_id_of (a_ip m) (a_port m)) (working_set api (clock inp1) ls (ip_locations st) (requests st))
                  = [(conn_id_of (a_ip m) (a_port m), c)] \<and> status c = Trapped)
          \<and> (\<exists>c. filter (\<lambda>e. fst e = conn_id_of (a_ip m) (a_port m)) (working_set api (clock inp2) ls (ip_locations (parse_endlessh_logs inp1 st)) (requests (parse_endlessh_logs inp1 st)))
                  = [(conn_id_of (a_ip m) (a_port m), c)] \<and> status c = Trapped)"
  proof (intro allI impI)
    fix l m assume a: "l \<in> set ls \<and> accept_m l = Some m \<and> a_port m \<notin> closed_ports_of ls"
    then have a1: "l \<in> set ls" and a2: "accept_m l = Some m" and a3: "a_port m \<notin> closed_ports_of ls"
      by simp_all
    from single_trapped [OF a1 a2 a3 ok, of api "clock inp1" "ip_locations st" "requests st"]
    have x: "\<exists>c. filter (\<lambda>e. fst e = conn_id_of (a_ip m) (a_port m)) (working_set api (clock inp1) ls (ip_locations st) (requests st))
                  = [(conn_id_of (a_ip m) (a_port m), c)] \<and> status c = Trapped" by blast
    from single_trapped [OF a1 a2 a3 ok, of api "clock inp2" "ip_locations (parse_endlessh_logs inp1 st)" "requests (parse_endlessh_logs inp1 st)"]
    have y: "\<exists>c. filter (\<lambda>e. fst e = conn_id_of (a_ip m) (a_port m)) (working_set api (clock inp2) ls (ip_locations (parse_endlessh_logs inp1 st)) (requests (parse_endlessh_logs inp1 st)))
                  = [(conn_id_of (a_ip m) (a_port m), c)] \<and> status c = Trapped" by blast
    from x y show "(\<exists>c. filter (\<lambda>e. fst e = conn_id_of (a_ip m) (a_port m)) (working_set api (clock inp1) ls (ip_locations st) (requests st))
                  = [(conn_id_of (a_ip m) (a_port m), c)] \<and> status c = Trapped)
          \<and> (\<exists>c. filter (\<lambda>e. fst e = conn_id_of (a_ip m) (a_port m)) (working_set api (clock inp2) ls (ip_locations (parse_endlessh_logs inp1 st)) (requests (parse_endlessh_logs inp1 st)))
                  = [(conn_id_of (a_ip m) (a_port m), c)] \<and> status c = Trapped)" ..
  qed
  have keys: "fst ` set (working_set api (clock inp1) ls (ip_locations st) (requests st)) = fst ` set (p_conns ?p)"
    by (simp add: working_set_keys accept_pass_keys)
  have 6: "\<forall>xs l ys m. ls = xs @ l # ys \<and> close_m l = Some m
            \<and> conn_id_of (c_ip m) (c_port m) \<notin> fst ` set (working_set api (clock inp1) ls (ip_locations st) (requests st)) \<longrightarrow>
          close_pass ls (p_conns ?p) (hall_of_fame st)
            = close_pass (xs @ ys) (p_conns ?p) (hall_of_fame st)"
    unfolding keys using close_pass_skip by blast
  have 7: "\<forall>xs l ys m. ls = xs @ l # ys \<and> accept_m l = None \<and> close_m l = Some m
            \<and> c_port m \<notin> open_ports ls \<longrightarrow>
          accept_pass api (clock inp1) ls (ip_locations st) (requests st)
            = accept_pass api (clock inp1) (xs @ ys) (ip_locations st) (requests st)
          \<and> close_pass ls (p_conns (accept_pass api (clock inp1) ls (ip_locations st) (requests st)))
              (hall_of_fame st)
            = close_pass (xs @ ys)
                (p_conns (accept_pass api (clock inp1) (xs @ ys) (ip_locations st) (requests st)))
                (hall_of_fame st)
          \<and> working_set api (clock inp1) ls (ip_locations st) (requests st)
            = working_set api (clock inp1) (xs @ ys) (ip_locations st) (requests st)"
  proof (intro allI impI, elim conjE)
    fix xs l ys m
    assume e: "ls = xs @ l # ys" and a: "accept_m l = None" and c: "close_m l = Some m"
      and p: "c_port m \<notin> open_ports ls"
    from ok e have ok': "\<forall>l \<in> set (xs @ l # ys). line_ok l" by simp
    from p e have p': "c_port m \<notin> open_ports (xs @ l # ys)" by simp
    from pass_without [OF ok' a c p', of api "clock inp1" "ip_locations st" "requests st" "hall_of_fame st"]
    show "accept_pass api (clock inp1) ls (ip_locations st) (requests st)
            = accept_pass api (clock inp1) (xs @ ys) (ip_locations st) (requests st)
          \<and> close_pass ls (p_conns (accept_pass api (clock inp1) ls (ip_locations st) (requests st)))
              (hall_of_fame st)
            = close_pass (xs @ ys)
                (p_conns (accept_pass api (clock inp1) (xs @ ys) (ip_locations st) (requests st)))
                (hall_of_fame st)
          \<and> working_set api (clock inp1) ls (ip_locations st) (requests st)
            = working_set api (clock inp1) (xs @ ys) (ip_locations st) (requests st)"
      unfolding e .
  qed
  from 1 2 3 4 5 6 7 show ?thesis by blast
qed

theorem rescan_same_text_witness:
  "stable no_geo_service
   \<and> list_all line_ok example_window
   \<and> card (seen_log_entries initial_engine \<union> log_ids example_window) \<le> 1000
   \<and> working_set no_geo_service (clock example_pass_again) example_window
        (ip_locations (parse_endlessh_logs example_pass initial_engine))
        (requests (parse_endlessh_logs example_pass initial_engine))
       = recompute_trapped (clock example_pass_again)
           (working_set no_geo_service (clock example_pass) example_window
              (ip_locations initial_engine) (requests initial_engine))
   \<and> total_connections_counter
        (parse_endlessh_logs example_pass_again (parse_endlessh_logs example_pass initial_engine))
       = total_connections_counter (parse_endlessh_logs example_pass initial_engine)"
proof -
  have s: "stable no_geo_service" by (simp add: stable_def no_geo_service_def)
  have g: "geo_api example_pass = no_geo_service" "geo_api example_pass_again = no_geo_service"
    by (simp_all add: example_pass_def example_pass_again_def)
  have o: "output_6h example_pass = Some example_window"
      "output_6h example_pass_again = Some example_window"
      "output_5min example_pass = Some example_window"
      "output_5min example_pass_again = Some example_window"
    by (simp_all add: example_pass_def example_pass_again_def)
  have k: "\<forall>l \<in> set example_window. line_ok l \<and> (accept_m l \<noteq> None \<longrightarrow> ts_m l \<noteq> None)"
    by (simp add: example_window_def example_line_defs line_ok_def digits_and_dots_def)
  have ids: "log_ids example_window = {''2025-10-14T16:17:13_40001'', ''2025-10-14T16:17:14_40002''}"
    by (simp add: log_ids_def List.map_filter_def line_id_def example_window_def
        example_line_defs log_id_of_def)
  have c: "card (seen_log_entries initial_engine \<union> log_ids example_window) \<le> 1000"
    by (simp add: ids initial_engine_def)
  note t = rescan_same_text [OF s g o k c]
  from t have 1: "working_set no_geo_service (clock example_pass_again) example_window
        (ip_locations (parse_endlessh_logs example_pass initial_engine))
        (requests (parse_endlessh_logs example_pass initial_engine))
       = recompute_trapped (clock example_pass_again)
           (working_set no_geo_service (clock example_pass) example_window
              (ip_locations initial_engine) (requests initial_engine))" by blast
  from t have 2: "total_connections_counter
        (parse_endlessh_logs example_pass_again (parse_endlessh_logs example_pass initial_engine))
       = total_connections_counter (parse_endlessh_logs example_pass initial_engine)" by blast
  from k have "list_all line_ok example_window" by (simp add: list_all_iff)
  with s c 1 2 show ?thesis by blast
qed

end
